theory Spec2Isabelle
  imports Complex_Main "HOL-Library.AList"
begin

section \<open>The BYOB worker launcher (src/roma/byob/container/run\_workers.cc)\<close>

subsection \<open>The host process: worker table, spawning, reaping\<close>

text \<open>
  \<^verbatim>\<open>struct UdfInstanceMetadata\<close> (declared inside \<^verbatim>\<open>main\<close>): what the host
  remembers about one live worker.
\<close>

record UdfInstanceMetadata =
  pivot_root_dir :: string
  code_token :: string
  binary_path :: string

text \<open>\<^verbatim>\<open>struct WorkerImplArg\<close>: what the cloned child is given.\<close>

record WorkerImplArg =
  arg_mounts :: "string list"
  arg_pivot_root_dir :: string
  arg_socket_name :: string
  arg_code_token :: string
  arg_binary_path :: string

text \<open>\<^verbatim>\<open>struct PidAndPivotRootDir\<close>: the result of one spawn.\<close>

record PidAndPivotRootDir =
  pp_pid :: int
  pp_pivot_root_dir :: string

text \<open>
  The status word filled in by \<^verbatim>\<open>waitpid\<close>, read only through the libc macros
  \<^verbatim>\<open>WIFEXITED\<close> and \<^verbatim>\<open>WEXITSTATUS\<close>: the child either exited with a code or was
  ended by a signal.
\<close>

datatype wait_status = Exited nat | Signaled nat

fun WIFEXITED :: "wait_status \<Rightarrow> bool" where
  "WIFEXITED (Exited c) = True"
| "WIFEXITED (Signaled s) = False"

fun WEXITSTATUS :: "wait_status \<Rightarrow> nat" where
  "WEXITSTATUS (Exited c) = c"
| "WEXITSTATUS (Signaled s) = 0"

text \<open>
  \<^verbatim>\<open>std::filesystem::perms\<close>, as the set of permission bits that are on, and what
  became of a \<^verbatim>\<open>std::ofstream\<close> that was opened, written once and closed: it could
  not be opened, or it took the first \<open>n\<close> of the bytes it was given (the program never
  looks at the stream's state).
\<close>

datatype perms =
    owner_read | owner_write | owner_exec
  | group_read | group_write | group_exec
  | others_read | others_write | others_exec

datatype stream_result = OpenFailed | Wrote nat

record file_entry =
  content :: string
  mode :: "perms set"

text \<open>
  The calls the host makes that leave the process, in the order it makes them.
  \<open>Waitpid a r\<close> is \<^verbatim>\<open>waitpid(a, ...)\<close> returning \<open>r\<close>; \<open>Clone arg r\<close> is the
  \<^verbatim>\<open>clone(WorkerImpl, ..., &arg)\<close> returning \<open>r\<close>.
\<close>

datatype host_call =
    Mkdtemp "string option"
  | Clone WorkerImplArg int
  | Waitpid int int wait_status
  | RemoveAll string nat
  | Kill int int
  | GenerateUuid string
  | OfstreamWrite string string stream_result
  | Permissions string "perms set"

text \<open>
  What the operating system answers is not decided by the program: the answer to the
  host's \<open>k\<close>-th call is read from an oracle, one field per kind of call. Every theorem
  below holds for all oracles.
\<close>

record host_os =
  mkdtemp_result :: "nat \<Rightarrow> string option"
  clone_result :: "nat \<Rightarrow> int"
  waitpid_result :: "nat \<Rightarrow> int \<times> wait_status"
  remove_all_result :: "nat \<Rightarrow> nat"
  kill_result :: "nat \<Rightarrow> int"
  uuid_result :: "nat \<Rightarrow> string"
  ofstream_result :: "nat \<Rightarrow> stream_result"
  created_mode :: "perms set"

text \<open>
  The host's state: \<^verbatim>\<open>pid_to_udf\<close> (an \<^verbatim>\<open>absl::flat_hash_map\<close>, kept as an
  association list with distinct keys), the number of calls made so far, and the calls
  themselves. \<open>files\<close> holds the regular files of the artifact directory.
\<close>

record host_state =
  pid_to_udf :: "(int \<times> UdfInstanceMetadata) list"
  files :: "string \<rightharpoonup> file_entry"
  tick :: nat
  calls :: "host_call list"

definition emit :: "host_call \<Rightarrow> host_state \<Rightarrow> host_state" where
  "emit c h = h\<lparr>tick := tick h + 1, calls := calls h @ [c]\<rparr>"

text \<open>
  \<^verbatim>\<open>ConnectSendCloneAndExec\<close>: \<^verbatim>\<open>mkdtemp\<close> (\<^verbatim>\<open>PCHECK\<close>ed), then \<^verbatim>\<open>clone\<close>
  of \<^verbatim>\<open>WorkerImpl\<close> (\<^verbatim>\<open>PCHECK(pid != -1)\<close>). \<open>None\<close> is the process aborted by a
  failed check.
\<close>

definition ConnectSendCloneAndExec ::
  "host_os \<Rightarrow> string list \<Rightarrow> string \<Rightarrow> string \<Rightarrow> string \<Rightarrow> host_state
    \<Rightarrow> host_state \<times> PidAndPivotRootDir option" where
  "ConnectSendCloneAndExec os mounts socket_name token path h =
     (case mkdtemp_result os (tick h) of
        None \<Rightarrow> (emit (Mkdtemp None) h, None)
      | Some dir \<Rightarrow>
          (let h1 = emit (Mkdtemp (Some dir)) h;
               worker_impl_arg = \<lparr>arg_mounts = mounts, arg_pivot_root_dir = dir,
                 arg_socket_name = socket_name, arg_code_token = token,
                 arg_binary_path = path\<rparr>;
               pid = clone_result os (tick h1);
               h2 = emit (Clone worker_impl_arg pid) h1
           in if pid = - 1 then (h2, None)
              else (h2, Some \<lparr>pp_pid = pid, pp_pivot_root_dir = dir\<rparr>)))"

text \<open>How one pass through a \<^verbatim>\<open>while (true)\<close> body ends.\<close>

datatype loop_ctl = Continue | Break | Abort

text \<open>
  One pass through the body of the reloader thread's \<^verbatim>\<open>while (true)\<close> loop
  (run\_workers.cc, lines 211 to 240).
\<close>

definition reloader_iteration ::
  "host_os \<Rightarrow> string list \<Rightarrow> string \<Rightarrow> host_state \<Rightarrow> host_state \<times> loop_ctl" where
  "reloader_iteration os mounts socket_name h =
     (let (pid, status) = waitpid_result os (tick h);
          h1 = emit (Waitpid (- 1) pid status) h
      in if pid = - 1 then (h1, Abort)
         else case map_of (pid_to_udf h1) pid of
           None \<Rightarrow> (h1, Continue)
         | Some udf \<Rightarrow>
             (let h2 = h1\<lparr>pid_to_udf := AList.delete pid (pid_to_udf h1)\<rparr> in
              if \<not> WIFEXITED status \<or> WEXITSTATUS status \<noteq> 0 then
                (let n = remove_all_result os (tick h2);
                     h3 = emit (RemoveAll (pivot_root_dir udf) n) h2
                 in if n = 0 then (h3, Abort) else (h3, Break))
              else
                (case ConnectSendCloneAndExec os mounts socket_name
                        (code_token udf) (binary_path udf) h2 of
                   (h3, None) \<Rightarrow> (h3, Abort)
                 | (h3, Some pid_and_pivot_root_dir) \<Rightarrow>
                     (let n = remove_all_result os (tick h3);
                          h4 = emit (RemoveAll (pivot_root_dir udf) n) h3
                      in if n = 0 then (h4, Abort)
                         else
                           (let udf' = udf\<lparr>pivot_root_dir :=
                                  pp_pivot_root_dir pid_and_pivot_root_dir\<rparr>;
                                new_pid = pp_pid pid_and_pivot_root_dir
                            in if new_pid \<in> fst ` set (pid_to_udf h4) then (h4, Abort)
                               else (h4\<lparr>pid_to_udf :=
                                       pid_to_udf h4 @ [(new_pid, udf')]\<rparr>, Continue))))))"

text \<open>
  The reloader's loop. It ends only by \<^verbatim>\<open>break\<close> or by a failed check, so the
  model runs it for at most \<open>fuel\<close> passes: \<open>None\<close> is a loop that is still waiting.
\<close>

fun reloader_loop ::
  "nat \<Rightarrow> host_os \<Rightarrow> string list \<Rightarrow> string \<Rightarrow> host_state \<Rightarrow> host_state \<times> loop_ctl option" where
  "reloader_loop 0 os mounts socket_name h = (h, None)"
| "reloader_loop (Suc fuel) os mounts socket_name h =
     (case reloader_iteration os mounts socket_name h of
        (h', Continue) \<Rightarrow> reloader_loop fuel os mounts socket_name h'
      | (h', ctl) \<Rightarrow> (h', Some ctl))"

text \<open>
  The shutdown loop of \<^verbatim>\<open>main\<close> (lines 289 to 300), over the entries of the table in
  the order the hash map yields them: \<^verbatim>\<open>kill\<close>, \<^verbatim>\<open>waitpid\<close> for that pid, then
  \<^verbatim>\<open>remove_all\<close> of its directory. Failures are logged and the loop goes on.
\<close>

fun kill_extant_workers ::
  "host_os \<Rightarrow> (int \<times> UdfInstanceMetadata) list \<Rightarrow> host_state \<Rightarrow> host_state" where
  "kill_extant_workers os [] h = h"
| "kill_extant_workers os ((pid, udf) # rest) h =
     (let h1 = emit (Kill pid (kill_result os (tick h))) h;
          h2 = emit (Waitpid pid (fst (waitpid_result os (tick h1)))
                  (snd (waitpid_result os (tick h1)))) h1;
          h3 = emit (RemoveAll (pivot_root_dir udf) (remove_all_result os (tick h2))) h2
      in kill_extant_workers os rest h3)"

subsection \<open>Loading a binary\<close>

text \<open>The fields of the \<^verbatim>\<open>LoadRequest\<close> message that \<^verbatim>\<open>main\<close> reads.\<close>

record LoadRequest =
  req_binary_content :: string
  req_code_token :: string
  req_n_workers :: int

text \<open>
  \<^verbatim>\<open>progdir / name\<close> of \<^verbatim>\<open>std::filesystem::path\<close>, for a directory without a
  trailing separator and a relative name.
\<close>

definition path_join :: "string \<Rightarrow> string \<Rightarrow> string" where
  "path_join dir name = dir @ ''/'' @ name"

text \<open>
  Lines 248 to 257: a name is drawn from the UUID generator, the content goes through a
  \<^verbatim>\<open>std::ofstream\<close> that is closed at the end of its block, and
  \<^verbatim>\<open>std::filesystem::permissions\<close> replaces the file's permission bits. The latter
  throws when the file does not exist, which ends the process: the result \<open>None\<close>.
\<close>

definition store_binary ::
  "host_os \<Rightarrow> string \<Rightarrow> LoadRequest \<Rightarrow> host_state \<Rightarrow> host_state \<times> string option" where
  "store_binary os progdir request h =
     (let uuid = uuid_result os (tick h);
          h0 = emit (GenerateUuid uuid) h;
          path = path_join progdir uuid;
          res = ofstream_result os (tick h0);
          h1 = emit (OfstreamWrite path (req_binary_content request) res) h0;
          h2 = (case res of
                  OpenFailed \<Rightarrow> h1
                | Wrote n \<Rightarrow>
                    h1\<lparr>files := (files h1)(path \<mapsto>
                      \<lparr>content = take n (req_binary_content request),
                       mode = (case files h1 path of
                                 None \<Rightarrow> created_mode os | Some f \<Rightarrow> mode f)\<rparr>)\<rparr>);
          h3 = emit (Permissions path {owner_exec, owner_read}) h2
      in case files h3 path of
           None \<Rightarrow> (h3, None)
         | Some f \<Rightarrow>
             (h3\<lparr>files := (files h3)(path \<mapsto> f\<lparr>mode := {owner_exec, owner_read}\<rparr>)\<rparr>,
              Some path))"

text \<open>
  Lines 258 to 268: \<^verbatim>\<open>for (int i = 0; i < request.n_workers() - 1; ++i)\<close>, each pass
  spawning one worker and storing it with \<^verbatim>\<open>pid_to_udf[pid] = udf\<close>. \<open>False\<close> is the
  process aborted inside a spawn.
\<close>

function load_loop ::
  "host_os \<Rightarrow> string list \<Rightarrow> string \<Rightarrow> LoadRequest \<Rightarrow> string \<Rightarrow> int \<Rightarrow> host_state
    \<Rightarrow> host_state \<times> bool" where
  "load_loop os mounts socket_name request path i h =
     (if i < req_n_workers request - 1 then
        (case ConnectSendCloneAndExec os mounts socket_name (req_code_token request) path h of
           (h1, None) \<Rightarrow> (h1, False)
         | (h1, Some pid_and_pivot_root_dir) \<Rightarrow>
             (let udf = \<lparr>pivot_root_dir = pp_pivot_root_dir pid_and_pivot_root_dir,
                        code_token = req_code_token request, binary_path = path\<rparr>
              in load_loop os mounts socket_name request path (i + 1)
                   (h1\<lparr>pid_to_udf :=
                        AList.update (pp_pid pid_and_pivot_root_dir) udf (pid_to_udf h1)\<rparr>)))
      else (h, True))"
  by pat_completeness auto
termination
  by (relation "measure (\<lambda>(os, mounts, socket_name, request, path, i, h).
        nat (req_n_workers request - 1 - i))") auto

text \<open>
  The body of \<^verbatim>\<open>main\<close>'s request loop for one parsed \<^verbatim>\<open>LoadRequest\<close> (lines 248 to
  279): store the binary, run the loop, then start the n-th worker out of the loop.
\<close>

definition handle_load ::
  "host_os \<Rightarrow> string list \<Rightarrow> string \<Rightarrow> string \<Rightarrow> LoadRequest \<Rightarrow> host_state
    \<Rightarrow> host_state \<times> bool" where
  "handle_load os mounts socket_name progdir request h =
     (case store_binary os progdir request h of
        (h1, None) \<Rightarrow> (h1, False)
      | (h1, Some path) \<Rightarrow>
          (case load_loop os mounts socket_name request path 0 h1 of
             (h2, False) \<Rightarrow> (h2, False)
           | (h2, True) \<Rightarrow>
               (case ConnectSendCloneAndExec os mounts socket_name
                       (req_code_token request) path h2 of
                  (h3, None) \<Rightarrow> (h3, False)
                | (h3, Some pid_and_pivot_root_dir) \<Rightarrow>
                    (let udf = \<lparr>pivot_root_dir = pp_pivot_root_dir pid_and_pivot_root_dir,
                               code_token = req_code_token request, binary_path = path\<rparr>
                     in (h3\<lparr>pid_to_udf :=
                            AList.update (pp_pid pid_and_pivot_root_dir) udf (pid_to_udf h3)\<rparr>,
                         True)))))"

text \<open>The workers a stretch of calls started: the argument and the pid of every \<^verbatim>\<open>clone\<close>.\<close>

fun spawned :: "host_call list \<Rightarrow> (WorkerImplArg \<times> int) list" where
  "spawned [] = []"
| "spawned (Clone a p # cs) = (a, p) # spawned cs"
| "spawned (c # cs) = spawned cs"

text \<open>
  The order the claims are about: within a stretch of calls, every \<^verbatim>\<open>remove_all\<close> of a
  directory comes after a \<^verbatim>\<open>waitpid\<close> that was called for, or that returned, the pid
  the table \<open>tbl\<close> holds that directory for.
\<close>

definition removed_only_after_wait ::
  "(int \<times> UdfInstanceMetadata) list \<Rightarrow> host_call list \<Rightarrow> bool" where
  "removed_only_after_wait tbl cs \<longleftrightarrow>
     (\<forall>i d n. i < length cs \<and> cs ! i = RemoveAll d n \<longrightarrow>
        (\<exists>j pid udf a r st. j < i \<and> cs ! j = Waitpid a r st \<and> (a = pid \<or> r = pid) \<and>
            (pid, udf) \<in> set tbl \<and> pivot_root_dir udf = d))"

text \<open>
  A pid is recorded in the table with a code token and a binary path: the table holds
  an entry for it that carries both.
\<close>

definition recorded :: "string \<Rightarrow> string \<Rightarrow> (int \<times> UdfInstanceMetadata) list \<Rightarrow> int \<Rightarrow> bool" where
  "recorded token path tbl p \<longleftrightarrow>
     (\<exists>udf. map_of tbl p = Some udf \<and> code_token udf = token \<and> binary_path udf = path)"

subsection \<open>A concrete run\<close>

text \<open>
  One table entry, and an operating system that answers every \<^verbatim>\<open>waitpid\<close> with the
  given pid and status and lets every other call succeed.
\<close>

definition example_token :: string where
  "example_token = ''6f1b0c52-7d3e-4a8f-9b21-0c5de47a93f1''"

definition example_udf :: UdfInstanceMetadata where
  "example_udf = \<lparr>pivot_root_dir = ''/tmp/roma_app_server_a1B2c3'',
     code_token = example_token, binary_path = ''/tmp/progdir/udf''\<rparr>"

definition example_host :: host_state where
  "example_host = \<lparr>pid_to_udf = [(4141, example_udf)], files = Map.empty, tick = 0, calls = []\<rparr>"

definition example_os :: "int \<Rightarrow> wait_status \<Rightarrow> host_os" where
  "example_os pid status = \<lparr>
     mkdtemp_result = (\<lambda>k. Some ''/tmp/roma_app_server_x9Y8z7''),
     clone_result = (\<lambda>k. 4242 + int k),
     waitpid_result = (\<lambda>k. (pid, status)),
     remove_all_result = (\<lambda>k. 3),
     kill_result = (\<lambda>k. 0),
     uuid_result = (\<lambda>k. ''0a9b8c7d-1111-4222-8333-444455556666''),
     ofstream_result = (\<lambda>k. Wrote 4),
     created_mode = {owner_read, owner_write, group_read, others_read}\<rparr>"

definition example_request :: LoadRequest where
  "example_request = \<lparr>req_binary_content = ''#!sh'', req_code_token = example_token,
     req_n_workers = 3\<rparr>"

subsection \<open>The cloned child: \<^verbatim>\<open>WorkerImpl\<close>\<close>

text \<open>
  The calls of the child, in the order it makes them. \<open>WriteFd fd bytes n\<close> is
  \<^verbatim>\<open>write(fd, buf, n)\<close> with \<open>bytes\<close> the \<open>n\<close> bytes found at \<^verbatim>\<open>buf\<close>; \<open>Mount\<close> carries
  source, target, file system type and the flags that are or'ed together.
\<close>

datatype mount_flag = MS_REC | MS_PRIVATE | MS_BIND | MS_SLAVE | MS_REMOUNT

datatype child_call =
    Socket
  | Connect int string
  | WriteFd int string nat
  | Mount "string option" string "string option" "mount_flag list"
  | CreateDirectories string
  | PivotRoot string string
  | Chdir string
  | Umount2 string
  | Dup int
  | Execl string "string list"

text \<open>
  The child's state is the list of its calls, each with the value it returned. The
  value returned by the child's \<open>k\<close>-th call is \<open>ret k\<close>, for an arbitrary \<open>ret\<close>:
  \<open>- 1\<close> is the failure of a system call, \<open>0\<close> its success, \<open>1\<close> the \<^verbatim>\<open>true\<close> of
  \<^verbatim>\<open>create_directories\<close>, and \<^verbatim>\<open>socket\<close>, \<^verbatim>\<open>dup\<close> and \<^verbatim>\<open>write\<close> return a
  descriptor or a count.
\<close>

record child_state =
  step :: nat
  ctrace :: "(child_call \<times> int) list"

definition sys :: "(nat \<Rightarrow> int) \<Rightarrow> child_call \<Rightarrow> child_state \<Rightarrow> int \<times> child_state" where
  "sys ret c s = (ret (step s), \<lparr>step = step s + 1, ctrace = ctrace s @ [(c, ret (step s))]\<rparr>)"

text \<open>
  How the child ends: \<^verbatim>\<open>WorkerImpl\<close> returns a value, a failed \<^verbatim>\<open>CHECK\<close>,
  \<^verbatim>\<open>PCHECK\<close> or \<^verbatim>\<open>PLOG(FATAL)\<close> aborts it, or \<^verbatim>\<open>execl\<close> replaces it by the binary
  run with the given \<^verbatim>\<open>argv\<close>.
\<close>

datatype child_end = Returned int | Aborted | Execed string "string list"

text \<open>
  \<^verbatim>\<open>absl::StrCat\<close> of one \<^verbatim>\<open>int\<close>.
  Modelled from the spec: abseil's StrCat is not under src/; the spec's descriptor
  handoff says the argument is the decimal string of the descriptor.
\<close>

definition digit_char :: "nat \<Rightarrow> char" where
  "digit_char d = char_of (48 + d)"

fun digits_of :: "nat \<Rightarrow> string" where
  "digits_of n = (if n < 10 then [digit_char n] else digits_of (n div 10) @ [digit_char (n mod 10)])"

declare digits_of.simps [simp del]

definition StrCat_int :: "int \<Rightarrow> string" where
  "StrCat_int i = (if i < 0 then CHR ''-'' # digits_of (nat (- i)) else digits_of (nat i))"

text \<open>
  \<^verbatim>\<open>std::filesystem::path(p).parent_path()\<close>, for a path without a trailing separator:
  the path up to its last component, without the separators before that component
  (the root directory is its own parent).
\<close>

definition parent_path :: "string \<Rightarrow> string" where
  "parent_path p =
     (let d = rev (dropWhile (\<lambda>c. c \<noteq> CHR ''/'') (rev p));
          d' = rev (dropWhile (\<lambda>c. c = CHR ''/'') (rev d))
      in if d \<noteq> [] \<and> d' = [] then ''/'' else d')"

text \<open>
  Lines 87 to 94: for every mount, create its target under the pivot-root directory
  and bind-mount it there. \<open>False\<close> is a failed check.
\<close>

fun bind_mounts ::
  "(nat \<Rightarrow> int) \<Rightarrow> string \<Rightarrow> string list \<Rightarrow> child_state \<Rightarrow> child_state \<times> bool" where
  "bind_mounts ret dir [] s = (s, True)"
| "bind_mounts ret dir (mount # rest) s =
     (let target = dir @ mount;
          (created, s1) = sys ret (CreateDirectories target) s
      in if created \<noteq> 1 then (s1, False)
         else
           (let (r, s2) = sys ret (Mount (Some mount) target None [MS_BIND]) s1
            in if r \<noteq> 0 then (s2, False) else bind_mounts ret dir rest s2))"

text \<open>Lines 114 to 118: remount every mount in place.\<close>

fun remount_all :: "(nat \<Rightarrow> int) \<Rightarrow> string list \<Rightarrow> child_state \<Rightarrow> child_state \<times> bool" where
  "remount_all ret [] s = (s, True)"
| "remount_all ret (mount # rest) s =
     (let (r, s1) = sys ret (Mount (Some mount) mount None [MS_REMOUNT, MS_BIND]) s
      in if r \<noteq> 0 then (s1, False) else remount_all ret rest s1)"

text \<open>
  Lines 82 to 124 of \<^verbatim>\<open>WorkerImpl\<close>, the block under the comment
  ``Set up restricted filesystem for worker using pivot\_root'': the root is remounted
  private, the mounts are bound under the pivot-root directory, the directory is bound
  onto itself and made a slave, \<^verbatim>\<open>pivot_root\<close> switches to it, the old root is
  detached, and the mounts and the binary's directory are remounted.
\<close>

definition setup_filesystem :: "(nat \<Rightarrow> int) \<Rightarrow> WorkerImplArg \<Rightarrow> child_state \<Rightarrow> child_state \<times> bool" where
  "setup_filesystem ret arg s =
     (let dir = arg_pivot_root_dir arg;
          (r, s1) = sys ret (Mount None ''/'' None [MS_REC, MS_PRIVATE]) s
      in if r \<noteq> 0 then (s1, False)
      else case bind_mounts ret dir (arg_mounts arg) s1 of
        (s2, False) \<Rightarrow> (s2, False)
      | (s2, True) \<Rightarrow>
      (let (r, s3) = sys ret (Mount (Some dir) dir (Some ''bind'') [MS_REC, MS_BIND]) s2
       in if r \<noteq> 0 then (s3, False)
       else
       (let (r, s4) = sys ret (Mount (Some dir) dir (Some ''bind'') [MS_REC, MS_SLAVE]) s3
        in if r \<noteq> 0 then (s4, False)
        else
        (let pivot_dir = dir @ ''/pivot'';
             (created, s5) = sys ret (CreateDirectories pivot_dir) s4
         in if created \<noteq> 1 then (s5, False)
         else
         (let (r, s6) = sys ret (PivotRoot dir pivot_dir) s5
          in if r \<noteq> 0 then (s6, False)
          else
          (let (r, s7) = sys ret (Chdir ''/'') s6
           in if r \<noteq> 0 then (s7, False)
           else
           (let (r, s8) = sys ret (Umount2 ''/pivot'') s7
            in if r \<noteq> 0 then (s8, False)
            else case remount_all ret (arg_mounts arg) s8 of
              (s9, False) \<Rightarrow> (s9, False)
            | (s9, True) \<Rightarrow>
              (let binary_dir = parent_path (arg_binary_path arg);
                   (r, s10) = sys ret
                      (Mount (Some binary_dir) binary_dir None [MS_REMOUNT, MS_BIND]) s9
               in (s10, r = 0)))))))))"

text \<open>
  Lines 126 to 134, ``Exec binary'': the socket is duplicated, and the binary is run
  with the new descriptor's decimal string as its only argument. \<^verbatim>\<open>execl\<close> returns
  only when it failed; the oracle's \<open>0\<close> stands for the call that did not return.
\<close>

definition exec_binary :: "(nat \<Rightarrow> int) \<Rightarrow> WorkerImplArg \<Rightarrow> int \<Rightarrow> child_state \<Rightarrow> child_state \<times> child_end" where
  "exec_binary ret arg fd s =
     (let (connection_fd, s1) = sys ret (Dup fd) s
      in if connection_fd = - 1 then (s1, Aborted)
         else
           (let argv = [arg_binary_path arg, StrCat_int connection_fd];
                (r, s2) = sys ret (Execl (arg_binary_path arg) argv) s1
            in if r = 0 then (s2, Execed (arg_binary_path arg) argv) else (s2, Aborted)))"

text \<open>
  \<^verbatim>\<open>WorkerImpl\<close>. The handshake is \<^verbatim>\<open>write(fd, code_token.data(), 36)\<close>: the 36
  bytes that start at the token's first character, whatever the token's length, so the
  bytes \<open>mem\<close> that follow the token in memory are a parameter.
\<close>

definition WorkerImpl ::
  "(nat \<Rightarrow> int) \<Rightarrow> string \<Rightarrow> WorkerImplArg \<Rightarrow> child_state \<Rightarrow> child_state \<times> child_end" where
  "WorkerImpl ret mem arg s =
     (let (fd, s1) = sys ret Socket s
      in if fd = - 1 then (s1, Aborted)
         else
           (let (connected, s2) = sys ret (Connect fd (arg_socket_name arg)) s1
            in if connected \<noteq> 0 then (s2, Returned (- 1))
               else
                 (let (written, s3) =
                        sys ret (WriteFd fd (take 36 (arg_code_token arg @ mem)) 36) s2
                  in if written \<noteq> 36 then (s3, Aborted)
                     else case setup_filesystem ret arg s3 of
                       (s4, False) \<Rightarrow> (s4, Aborted)
                     | (s4, True) \<Rightarrow> exec_binary ret arg fd s4)))"

text \<open>The calls of the handshake, and the calls that set up the sandbox's file system.\<close>

fun is_handshake :: "child_call \<Rightarrow> bool" where
  "is_handshake (Connect fd path) = True"
| "is_handshake (WriteFd fd bytes n) = True"
| "is_handshake c = False"

fun is_fs_setup :: "child_call \<Rightarrow> bool" where
  "is_fs_setup (Mount src tgt fs flags) = True"
| "is_fs_setup (CreateDirectories d) = True"
| "is_fs_setup (PivotRoot new_root put_old) = True"
| "is_fs_setup (Chdir d) = True"
| "is_fs_setup (Umount2 d) = True"
| "is_fs_setup c = False"

text \<open>
  The order the spec lists (file system setup, then connect and handshake), and the
  order of the code (connect and handshake, then file system setup), as properties of a
  list of calls.
\<close>

definition handshake_after_setup :: "child_call list \<Rightarrow> bool" where
  "handshake_after_setup cs \<longleftrightarrow>
     (\<forall>i j. i < length cs \<and> j < length cs \<and> is_handshake (cs ! i) \<and> is_fs_setup (cs ! j)
        \<longrightarrow> j < i)"

definition setup_after_handshake :: "child_call list \<Rightarrow> bool" where
  "setup_after_handshake cs \<longleftrightarrow>
     (\<forall>i j. i < length cs \<and> j < length cs \<and> is_handshake (cs ! i) \<and> is_fs_setup (cs ! j)
        \<longrightarrow> i < j)"

text \<open>
  The calls that launch the UDF (the \<^verbatim>\<open>dup\<close> of the socket and the \<^verbatim>\<open>execl\<close>), and the
  order of the code's last part: every call of the file system setup comes before every
  call of the launch.
\<close>

fun is_launch :: "child_call \<Rightarrow> bool" where
  "is_launch (Dup fd) = True"
| "is_launch (Execl path argv) = True"
| "is_launch c = False"

definition launch_after_setup :: "child_call list \<Rightarrow> bool" where
  "launch_after_setup cs \<longleftrightarrow>
     (\<forall>i j. i < length cs \<and> j < length cs \<and> is_fs_setup (cs ! i) \<and> is_launch (cs ! j)
        \<longrightarrow> i < j)"

subsection \<open>The sample UDF (src/roma/byob/udf/payload\_read.cc)\<close>

text \<open>
  \<^verbatim>\<open>std::stoi\<close> of a string, base 10: leading white space is skipped, a sign may
  follow, then the longest run of digits is read; \<open>None\<close> is the exception thrown when
  there is no digit or the value does not fit an \<^verbatim>\<open>int\<close>.
  Modelled from the spec: the C++ library's stoi is not under src/; the spec's
  descriptor handoff says the binary parses the decimal integer of its first argument.
\<close>

definition isspace :: "char \<Rightarrow> bool" where
  "isspace c \<longleftrightarrow> c \<in> {CHR '' '', CHR 0x09, CHR 0x0A, CHR 0x0B, CHR 0x0C, CHR 0x0D}"

definition isdigit :: "char \<Rightarrow> bool" where
  "isdigit c \<longleftrightarrow> 48 \<le> (of_char c :: nat) \<and> (of_char c :: nat) \<le> 57"

definition digit_val :: "char \<Rightarrow> nat" where
  "digit_val c = of_char c - 48"

definition decimal_value :: "string \<Rightarrow> nat" where
  "decimal_value ds = fold (\<lambda>c n. n * 10 + digit_val c) ds 0"

definition stoi :: "string \<Rightarrow> int option" where
  "stoi str =
     (let s1 = dropWhile isspace str;
          negative = (s1 \<noteq> [] \<and> hd s1 = CHR ''-'');
          s2 = (if s1 \<noteq> [] \<and> (hd s1 = CHR ''-'' \<or> hd s1 = CHR ''+'') then tl s1 else s1);
          ds = takeWhile isdigit s2;
          v = (if negative then - int (decimal_value ds) else int (decimal_value ds))
      in if ds = [] then None
         else if v < - (2 ^ 31) \<or> 2 ^ 31 \<le> v then None
         else Some v)"

text \<open>
  \<^verbatim>\<open>main\<close> of the sample UDF, as the descriptors it reads its request from and writes
  its response to: \<^verbatim>\<open>ReadRequestFromFd(fd)\<close> then \<^verbatim>\<open>WriteResponseToFd(fd, ...)\<close>,
  with \<^verbatim>\<open>fd = std::stoi(argv[1])\<close>. The exit value is \<open>None\<close> when \<^verbatim>\<open>stoi\<close> throws.
\<close>

datatype udf_io = ReadRequestFromFd int | WriteResponseToFd int

definition udf_main :: "string list \<Rightarrow> udf_io list \<times> int option" where
  "udf_main argv =
     (if length argv < 2 then ([], Some (- 1))
      else case stoi (argv ! 1) of
        None \<Rightarrow> ([], None)
      | Some fd \<Rightarrow> ([ReadRequestFromFd fd, WriteResponseToFd fd], Some 0))"

text \<open>
  A child whose every call succeeds: descriptors 3 and 4, and a full write. Its mounts are
  those \<^verbatim>\<open>main\<close> passes: the flag's default, and the artifact directory pushed after them.
\<close>

definition example_ret :: "nat \<Rightarrow> int" where
  "example_ret k = (if k = 0 then 3 else if k = 2 then 36
     else if k = 4 \<or> k = 6 \<or> k = 8 \<or> k = 12 then 1 else if k = 20 then 4 else 0)"

definition example_arg :: WorkerImplArg where
  "example_arg = \<lparr>arg_mounts = [''/lib'', ''/lib64'', ''/tmp/progdir''],
     arg_pivot_root_dir = ''/tmp/roma_app_server_x9Y8z7'',
     arg_socket_name = ''/sockdir/abcd.sock'', arg_code_token = example_token,
     arg_binary_path = ''/tmp/progdir/udf''\<rparr>"

subsection \<open>Framed messages\<close>

text \<open>
  The sample UDF reads its request with
  \<^verbatim>\<open>google::protobuf::util::ParseDelimitedFromZeroCopyStream\<close> and writes its response
  with \<^verbatim>\<open>SerializeDelimitedToFileDescriptor\<close>; the launcher reads its load requests
  with the former. A message is its serialized bytes here.
  Modelled from the spec: protobuf's delimited\_message\_util is not under src/; section
  4.1 of the spec gives the framing as a little-endian varint length (seven bits to a
  byte, the low bits first, the high bit of a byte set when another byte follows) and
  then the payload, read back by taking the length and then exactly that many bytes.
\<close>

fun WriteVarint32 :: "nat \<Rightarrow> string" where
  "WriteVarint32 n =
     (if n < 128 then [char_of n] else char_of (128 + n mod 128) # WriteVarint32 (n div 128))"

declare WriteVarint32.simps [simp del]

fun ReadVarint32 :: "string \<Rightarrow> (nat \<times> string) option" where
  "ReadVarint32 [] = None"
| "ReadVarint32 (b # bs) =
     (if (of_char b :: nat) < 128 then Some (of_char b, bs)
      else case ReadVarint32 bs of
        None \<Rightarrow> None
      | Some (v, rest) \<Rightarrow> Some (of_char b - 128 + 128 * v, rest))"

definition SerializeDelimitedToFileDescriptor :: "string \<Rightarrow> string" where
  "SerializeDelimitedToFileDescriptor payload = WriteVarint32 (length payload) @ payload"

definition ParseDelimitedFromZeroCopyStream :: "string \<Rightarrow> (string \<times> string) option" where
  "ParseDelimitedFromZeroCopyStream input =
     (case ReadVarint32 input of
        None \<Rightarrow> None
      | Some (n, rest) \<Rightarrow> if length rest < n then None else Some (take n rest, drop n rest))"

text \<open>
  The frame of the spec's section 6: the length as eight bytes, least significant
  first, then the payload.
\<close>

definition le64 :: "nat \<Rightarrow> string" where
  "le64 n = map (\<lambda>i. char_of (n div 256 ^ i)) [0..<8]"

definition frame_le64 :: "string \<Rightarrow> string" where
  "frame_le64 payload = le64 (length payload) @ payload"

subsection \<open>The sample UDF's prime sieve (\<^verbatim>\<open>RunPrimeSieve\<close>)\<close>

text \<open>\<^verbatim>\<open>constexpr int kPrimeCount = 100'000\<close>.\<close>

definition kPrimeCount :: nat where
  "kPrimeCount = 100000"

text \<open>
  The inner loop \<^verbatim>\<open>for (int j = i * i; j <= kPrimeCount; j += i) primes[j] = false\<close>,
  entered at \<open>j\<close>. The loop runs with \<open>2 \<le> i\<close> only; the test \<open>0 < i\<close> is there for the
  function to be total. No \<^verbatim>\<open>int\<close> overflows: \<open>j\<close> stays below \<open>kPrimeCount + i\<close>.
\<close>

function mark_multiples :: "nat \<Rightarrow> nat \<Rightarrow> nat \<Rightarrow> bool list \<Rightarrow> bool list" where
  "mark_multiples n i j primes =
     (if j \<le> n \<and> 0 < i then mark_multiples n i (j + i) (primes[j := False]) else primes)"
  by pat_completeness auto
termination
  by (relation "measure (\<lambda>(n, i, j, primes). n + 1 - j)") auto

declare mark_multiples.simps [simp del]

text \<open>
  The outer loop \<^verbatim>\<open>for (int i = 2; i <= sqrt(kPrimeCount); i++)\<close>, entered at \<open>i\<close>. The
  comparison is the one of the source, between \<open>i\<close> and the square root as real
  numbers: the \<^verbatim>\<open>double\<close> that \<^verbatim>\<open>sqrt\<close> returns for 100000 lies strictly between 316 and
  317, as the real root does, so both orders agree on every integer.
\<close>

function sieve_loop :: "nat \<Rightarrow> nat \<Rightarrow> bool list \<Rightarrow> bool list" where
  "sieve_loop n i primes =
     (if real i \<le> sqrt (real n)
      then sieve_loop n (i + 1) (if primes ! i then mark_multiples n i (i * i) primes else primes)
      else primes)"
  by pat_completeness auto
termination
proof (relation "measure (\<lambda>(n, i, primes). n + 1 - i)")
  show "wf (measure (\<lambda>(n, i, primes). n + 1 - i))" by simp
next
  fix n i :: nat and primes :: "bool list"
  assume le: "real i \<le> sqrt (real n)"
  have "real i * real i \<le> sqrt (real n) * sqrt (real n)"
    using le by (intro mult_mono) simp_all
  then have "real (i * i) \<le> real n" by simp
  then have "i * i \<le> n" by (simp only: of_nat_le_iff)
  moreover have "i \<le> i * i" by (cases i) simp_all
  ultimately have "i \<le> n" by (rule order_trans [rotated])
  then show "((n, i + 1, if primes ! i then mark_multiples n i (i * i) primes else primes),
      (n, i, primes)) \<in> measure (\<lambda>(n, i, primes). n + 1 - i)"
    by simp
qed

declare sieve_loop.simps [simp del]

text \<open>
  \<^verbatim>\<open>RunPrimeSieve\<close>, for an array of \<open>n + 1\<close> flags: all flags true but the first two,
  the two loops, then every index from 2 to \<open>n\<close> whose flag is still true, in this order
  (\<^verbatim>\<open>add_prime_number\<close>).
\<close>

definition prime_sieve :: "nat \<Rightarrow> nat list" where
  "prime_sieve n =
     (let primes = replicate (n + 1) True;
          primes = primes[0 := False];
          primes = primes[1 := False];
          primes = sieve_loop n 2 primes
      in [i \<leftarrow> [2..<n + 1]. primes ! i])"

definition RunPrimeSieve :: "nat list" where
  "RunPrimeSieve = prime_sieve kPrimeCount"

text \<open>A prime number: greater than one and without a divisor strictly between one and itself.\<close>

definition is_prime :: "nat \<Rightarrow> bool" where
  "is_prime n \<longleftrightarrow> 1 < n \<and> (\<nexists>d. 1 < d \<and> d < n \<and> d dvd n)"

text \<open>
  For counting: the numbers from 1 to \<open>x\<close> that none of \<open>ps\<close> divides are counted by
  Legendre's recursion, and the primes up to 316 in descending order.
\<close>

fun phi :: "nat \<Rightarrow> nat list \<Rightarrow> nat" where
  "phi x [] = x"
| "phi x (p # ps) = (if x < p then phi x ps else phi x ps - phi (x div p) ps)"

definition small_primes :: "nat list" where
  "small_primes = [313, 311, 307, 293, 283, 281, 277, 271, 269, 263, 257, 251, 241, 239, 233,
     229, 227, 223, 211, 199, 197, 193, 191, 181, 179, 173, 167, 163, 157, 151, 149, 139, 137,
     131, 127, 113, 109, 107, 103, 101, 97, 89, 83, 79, 73, 71, 67, 61, 59, 53, 47, 43, 41, 37,
     31, 29, 23, 19, 17, 13, 11, 7, 5, 3, 2]"

text \<open>
  The numbers from 2 to \<open>n\<close> that are in \<open>ps\<close> or have no divisor in \<open>ps\<close>; \<open>no_divisor\<close>
  stops at the first divisor found.
\<close>

fun no_divisor :: "nat list \<Rightarrow> nat \<Rightarrow> bool" where
  "no_divisor [] k = True"
| "no_divisor (p # ps) k = (if p dvd k then False else no_divisor ps k)"

definition sifted :: "nat list \<Rightarrow> nat \<Rightarrow> nat list" where
  "sifted ps n = [k \<leftarrow> [2..<n + 1]. k \<in> set ps \<or> no_divisor ps k]"

text \<open>After the passes for all \<open>d < i\<close>: the flags that are still true.\<close>

definition unmarked :: "nat \<Rightarrow> nat \<Rightarrow> bool" where
  "unmarked i k \<longleftrightarrow> 2 \<le> k \<and> (\<nexists>d. 2 \<le> d \<and> d < i \<and> d * d \<le> k \<and> d dvd k)"

text \<open>The numbers from 1 to \<open>x\<close> that no element of \<open>ps\<close> divides.\<close>

definition coprime_upto :: "nat \<Rightarrow> nat list \<Rightarrow> nat set" where
  "coprime_upto x ps = {k. 1 \<le> k \<and> k \<le> x \<and> (\<forall>p \<in> set ps. \<not> p dvd k)}"

section \<open>Properties\<close>

lemma calls_emit: "calls (emit c h) = calls h @ [c]"
  by (simp add: emit_def)

lemma pid_to_udf_emit: "pid_to_udf (emit c h) = pid_to_udf h"
  by (simp add: emit_def)

text \<open>
  C10. When \<^verbatim>\<open>waitpid\<close> returns a pid that is not a key of the worker table, the
  reloader leaves the table as it was, makes no other call (no directory is removed, no
  worker is spawned) and goes on to wait for the next exit.
\<close>

theorem reloader_unknown_pid_unchanged:
  assumes "waitpid_result os (tick h) = (pid, status)"
    and "pid \<noteq> - 1"
    and "map_of (pid_to_udf h) pid = None"
  shows "reloader_iteration os mounts socket_name h =
           (h\<lparr>tick := tick h + 1, calls := calls h @ [Waitpid (- 1) pid status]\<rparr>, Continue)"
  using assms by (simp add: reloader_iteration_def emit_def)

lemma tick_emit: "tick (emit c h) = tick h + 1"
  by (simp add: emit_def)

lemma files_emit: "files (emit c h) = files h"
  by (simp add: emit_def)

lemmas example_defs = example_os_def example_host_def example_udf_def example_token_def
  example_request_def

text \<open>The theorem at a pid the table does not hold.\<close>

theorem reloader_unknown_pid_unchanged_witness:
  "waitpid_result (example_os 9999 (Exited 0)) (tick example_host) = (9999, Exited 0) \<and>
   map_of (pid_to_udf example_host) 9999 = None \<and>
   reloader_iteration (example_os 9999 (Exited 0)) [''/lib'', ''/lib64''] ''/sockdir/abcd.sock''
       example_host =
     (example_host\<lparr>tick := 1, calls := [Waitpid (- 1) 9999 (Exited 0)]\<rparr>, Continue)"
proof -
  have a: "waitpid_result (example_os 9999 (Exited 0)) (tick example_host) = (9999, Exited 0)"
    by (simp add: example_defs)
  have b: "(9999::int) \<noteq> - 1" by simp
  have c: "map_of (pid_to_udf example_host) 9999 = None"
    by (simp add: example_defs)
  have "reloader_iteration (example_os 9999 (Exited 0)) [''/lib'', ''/lib64'']
      ''/sockdir/abcd.sock'' example_host =
     (example_host\<lparr>tick := 1, calls := [Waitpid (- 1) 9999 (Exited 0)]\<rparr>, Continue)"
    unfolding reloader_unknown_pid_unchanged [OF a b c] by (simp add: example_host_def)
  with a c show ?thesis by blast
qed

text \<open>
  C1, as the code has it. When \<^verbatim>\<open>waitpid\<close> returns the pid of a worker of the table and
  the pass is not ended by a failed check, the worker's pivot-root directory is removed
  and its entry erased. When the worker exited with status zero, one replacement is
  spawned with the same code token and binary path and entered in the table under its
  new pid and directory, and the loop goes on. When the worker ended in any other way
  (a non-zero exit status, or a signal), nothing is spawned and the loop is left by
  \<^verbatim>\<open>break\<close>: the reloader reaps no further exit.
\<close>

theorem reloader_known_pid:
  assumes w: "waitpid_result os (tick h) = (pid, status)"
    and pid: "pid \<noteq> - 1"
    and known: "map_of (pid_to_udf h) pid = Some udf"
    and run: "reloader_iteration os mounts socket_name h = (h', ctl)"
    and ok: "ctl \<noteq> Abort"
  shows "(\<exists>n. 0 < n \<and> RemoveAll (pivot_root_dir udf) n \<in> set (drop (length (calls h)) (calls h'))) \<and>
    (WIFEXITED status \<and> WEXITSTATUS status = 0 \<longrightarrow>
          ctl = Continue \<and>
          (\<exists>new_pid dir.
             spawned (drop (length (calls h)) (calls h')) =
               [(\<lparr>arg_mounts = mounts, arg_pivot_root_dir = dir, arg_socket_name = socket_name,
                  arg_code_token = code_token udf, arg_binary_path = binary_path udf\<rparr>, new_pid)] \<and>
             pid_to_udf h' =
               AList.delete pid (pid_to_udf h) @ [(new_pid, udf\<lparr>pivot_root_dir := dir\<rparr>)])) \<and>
    (\<not> (WIFEXITED status \<and> WEXITSTATUS status = 0) \<longrightarrow>
          ctl = Break \<and> spawned (drop (length (calls h)) (calls h')) = [] \<and>
          pid_to_udf h' = AList.delete pid (pid_to_udf h))"
  using assms
  by (auto simp: reloader_iteration_def Let_def emit_def ConnectSendCloneAndExec_def
      split: option.splits if_splits prod.splits)

text \<open>Two runs of one pass: the worker 4141 exits with status 0, and with status 1.\<close>

lemma example_run_exit0:
  "reloader_iteration (example_os 4141 (Exited 0)) [''/lib'', ''/lib64''] ''/sockdir/abcd.sock''
       example_host =
     (\<lparr>pid_to_udf = [(4244, example_udf\<lparr>pivot_root_dir := ''/tmp/roma_app_server_x9Y8z7''\<rparr>)],
       files = Map.empty, tick = 4,
       calls = [Waitpid (- 1) 4141 (Exited 0), Mkdtemp (Some ''/tmp/roma_app_server_x9Y8z7''),
         Clone \<lparr>arg_mounts = [''/lib'', ''/lib64''],
                arg_pivot_root_dir = ''/tmp/roma_app_server_x9Y8z7'',
                arg_socket_name = ''/sockdir/abcd.sock'', arg_code_token = example_token,
                arg_binary_path = ''/tmp/progdir/udf''\<rparr> 4244,
         RemoveAll ''/tmp/roma_app_server_a1B2c3'' 3]\<rparr>, Continue)"
  by (simp add: reloader_iteration_def Let_def emit_def ConnectSendCloneAndExec_def
      example_os_def example_host_def example_udf_def)

lemma example_run_exit1:
  "reloader_iteration (example_os 4141 (Exited 1)) [''/lib'', ''/lib64''] ''/sockdir/abcd.sock''
       example_host =
     (\<lparr>pid_to_udf = [], files = Map.empty, tick = 2,
       calls = [Waitpid (- 1) 4141 (Exited 1), RemoveAll ''/tmp/roma_app_server_a1B2c3'' 3]\<rparr>,
      Break)"
  by (simp add: reloader_iteration_def Let_def emit_def ConnectSendCloneAndExec_def
      example_os_def example_host_def example_udf_def)

theorem reloader_known_pid_witness:
  "waitpid_result (example_os 4141 (Exited 0)) (tick example_host) = (4141, Exited 0) \<and>
   map_of (pid_to_udf example_host) 4141 = Some example_udf \<and>
   snd (reloader_iteration (example_os 4141 (Exited 0)) [''/lib'', ''/lib64'']
          ''/sockdir/abcd.sock'' example_host) = Continue \<and>
   (\<exists>new_pid dir.
      pid_to_udf (fst (reloader_iteration (example_os 4141 (Exited 0)) [''/lib'', ''/lib64'']
          ''/sockdir/abcd.sock'' example_host)) =
        AList.delete 4141 (pid_to_udf example_host) @
          [(new_pid, example_udf\<lparr>pivot_root_dir := dir\<rparr>)])"
proof -
  have a: "waitpid_result (example_os 4141 (Exited 0)) (tick example_host) = (4141, Exited 0)"
    by (simp add: example_defs)
  have b: "(4141::int) \<noteq> - 1" by simp
  have c: "map_of (pid_to_udf example_host) 4141 = Some example_udf"
    by (simp add: example_host_def)
  have d: "Continue \<noteq> Abort" by simp
  have e: "WIFEXITED (Exited 0) \<and> WEXITSTATUS (Exited 0) = 0" by simp
  from reloader_known_pid [OF a b c example_run_exit0 d] e
  have "\<exists>new_pid dir.
      pid_to_udf (fst (reloader_iteration (example_os 4141 (Exited 0)) [''/lib'', ''/lib64'']
          ''/sockdir/abcd.sock'' example_host)) =
        AList.delete 4141 (pid_to_udf example_host) @
          [(new_pid, example_udf\<lparr>pivot_root_dir := dir\<rparr>)]"
    unfolding example_run_exit0 fst_conv by blast
  moreover have "snd (reloader_iteration (example_os 4141 (Exited 0)) [''/lib'', ''/lib64'']
          ''/sockdir/abcd.sock'' example_host) = Continue"
    by (simp add: example_run_exit0)
  ultimately show ?thesis using a c by blast
qed

text \<open>
  C1 as stated fails: it is not so that after every exit of a known worker a replacement
  with the same code token and binary path has been spawned and stands in the table.
  The worker 4141 of the example exits with status 1, and no worker is spawned.
\<close>

theorem nonzero_exit_not_respawned:
  "\<not> (\<forall>os mounts socket_name h pid status udf.
        waitpid_result os (tick h) = (pid, status) \<and> pid \<noteq> - 1 \<and>
        map_of (pid_to_udf h) pid = Some udf \<longrightarrow>
        (\<exists>a p. (a, p) \<in> set (spawned (calls (fst (reloader_iteration os mounts socket_name h)))) \<and>
           arg_code_token a = code_token udf \<and> arg_binary_path a = binary_path udf \<and>
           map_of (pid_to_udf (fst (reloader_iteration os mounts socket_name h))) p \<noteq> None))"
proof
  assume all: "\<forall>os mounts socket_name h pid status udf.
        waitpid_result os (tick h) = (pid, status) \<and> pid \<noteq> - 1 \<and>
        map_of (pid_to_udf h) pid = Some udf \<longrightarrow>
        (\<exists>a p. (a, p) \<in> set (spawned (calls (fst (reloader_iteration os mounts socket_name h)))) \<and>
           arg_code_token a = code_token udf \<and> arg_binary_path a = binary_path udf \<and>
           map_of (pid_to_udf (fst (reloader_iteration os mounts socket_name h))) p \<noteq> None)"
  have a: "waitpid_result (example_os 4141 (Exited 1)) (tick example_host) = (4141, Exited 1)"
    by (simp add: example_defs)
  have c: "map_of (pid_to_udf example_host) 4141 = Some example_udf"
    by (simp add: example_host_def)
  from all [rule_format, of "example_os 4141 (Exited 1)" example_host 4141 "Exited 1"
      example_udf "[''/lib'', ''/lib64'']" "''/sockdir/abcd.sock''"] a c have "\<exists>a p. (a, p) \<in> set (spawned (calls (fst (reloader_iteration
       (example_os 4141 (Exited 1)) [''/lib'', ''/lib64''] ''/sockdir/abcd.sock'' example_host))))"
    by auto
  then show False unfolding example_run_exit1 by simp
qed


lemma removed_only_after_wait_Nil: "removed_only_after_wait tbl []"
  by (simp add: removed_only_after_wait_def)

lemma removed_only_after_wait_triple:
  assumes rest: "removed_only_after_wait tbl' cs"
    and sub: "set tbl' \<subseteq> set tbl"
    and entry: "(pid, udf) \<in> set tbl"
  shows "removed_only_after_wait tbl
           ([Kill pid k, Waitpid pid r st, RemoveAll (pivot_root_dir udf) n] @ cs)"
  unfolding removed_only_after_wait_def
proof (intro allI impI)
  fix i d m
  let ?pre = "[Kill pid k, Waitpid pid r st, RemoveAll (pivot_root_dir udf) n]"
  assume a: "i < length (?pre @ cs) \<and> (?pre @ cs) ! i = RemoveAll d m"
  show "\<exists>j p u a' r' st'. j < i \<and> (?pre @ cs) ! j = Waitpid a' r' st' \<and> (a' = p \<or> r' = p) \<and>
          (p, u) \<in> set tbl \<and> pivot_root_dir u = d"
  proof (cases "i < 3")
    case True
    then have "i = 0 \<or> i = 1 \<or> i = 2" by arith
    with a have i2: "i = 2" and d: "d = pivot_root_dir udf" by auto
    show ?thesis
      by (rule exI [of _ 1], rule exI [of _ pid], rule exI [of _ udf], rule exI [of _ pid],
          rule exI [of _ r], rule exI [of _ st]) (simp add: i2 d entry)
  next
    case False
    then have i3: "3 \<le> i" by simp
    with a have "i - 3 < length cs" and "cs ! (i - 3) = RemoveAll d m"
      by (auto simp: nth_append eval_nat_numeral)
    with rest obtain j p u a' r' st' where j: "j < i - 3" "cs ! j = Waitpid a' r' st'"
      "a' = p \<or> r' = p" "(p, u) \<in> set tbl'" "pivot_root_dir u = d"
      unfolding removed_only_after_wait_def by blast
    have "(?pre @ cs) ! (j + 3) = Waitpid a' r' st'"
      using j(2) by (simp add: nth_append)
    moreover have "j + 3 < i" using j(1) i3 by arith
    moreover have "(p, u) \<in> set tbl" using j(4) sub by blast
    ultimately show ?thesis using j(3) j(5) by blast
  qed
qed

lemma kill_extant_workers_calls:
  "\<exists>cs. calls (kill_extant_workers os tbl h) = calls h @ cs \<and> removed_only_after_wait tbl cs"
proof (induction tbl arbitrary: h)
  case Nil
  show ?case by (simp add: removed_only_after_wait_Nil)
next
  case (Cons e tbl)
  obtain pid udf where e: "e = (pid, udf)" by (cases e)
  define h1 where "h1 = emit (Kill pid (kill_result os (tick h))) h"
  define h2 where "h2 = emit (Waitpid pid (fst (waitpid_result os (tick h1)))
                  (snd (waitpid_result os (tick h1)))) h1"
  define h3 where "h3 = emit (RemoveAll (pivot_root_dir udf) (remove_all_result os (tick h2))) h2"
  from Cons.IH [of h3] obtain cs where cs: "calls (kill_extant_workers os tbl h3) = calls h3 @ cs"
    "removed_only_after_wait tbl cs" by blast
  have run: "kill_extant_workers os (e # tbl) h = kill_extant_workers os tbl h3"
    by (simp add: e h1_def h2_def h3_def Let_def)
  have c3: "calls h3 = calls h @ [Kill pid (kill_result os (tick h)),
      Waitpid pid (fst (waitpid_result os (tick h1))) (snd (waitpid_result os (tick h1))),
      RemoveAll (pivot_root_dir udf) (remove_all_result os (tick h2))]"
    by (simp add: h3_def h2_def h1_def calls_emit)
  have "removed_only_after_wait (e # tbl)
      ([Kill pid (kill_result os (tick h)),
      Waitpid pid (fst (waitpid_result os (tick h1))) (snd (waitpid_result os (tick h1))),
      RemoveAll (pivot_root_dir udf) (remove_all_result os (tick h2))] @ cs)"
    by (rule removed_only_after_wait_triple [OF cs(2)]) (auto simp: e)
  then show ?case
    unfolding run cs(1) c3 by auto
qed

lemma reloader_iteration_removals:
  assumes "reloader_iteration os mounts socket_name h = (h', ctl)"
  shows "\<exists>cs. calls h' = calls h @ cs \<and> removed_only_after_wait (pid_to_udf h) cs"
proof -
  obtain pid status where w: "waitpid_result os (tick h) = (pid, status)"
    by (cases "waitpid_result os (tick h)")
  show ?thesis
  proof (cases "pid = - 1 \<or> map_of (pid_to_udf h) pid = None")
    case True
    with assms w have "calls h' = calls h @ [Waitpid (- 1) pid status]"
      by (auto simp: reloader_iteration_def emit_def Let_def split: if_splits)
    moreover have "removed_only_after_wait (pid_to_udf h) [Waitpid (- 1) pid status]"
      unfolding removed_only_after_wait_def
    proof (intro allI impI)
      fix i d n
      assume "i < length [Waitpid (- 1) pid status] \<and>
        [Waitpid (- 1) pid status] ! i = RemoveAll d n"
      then have False by (cases i) auto
      then show "\<exists>j p u a r st. j < i \<and> [Waitpid (- 1) pid status] ! j = Waitpid a r st \<and>
        (a = p \<or> r = p) \<and> (p, u) \<in> set (pid_to_udf h) \<and> pivot_root_dir u = d" ..
    qed
    ultimately show ?thesis by blast
  next
    case False
    then obtain udf where u: "map_of (pid_to_udf h) pid = Some udf" and p: "pid \<noteq> - 1" by auto
    then have mem: "(pid, udf) \<in> set (pid_to_udf h)" by (simp add: map_of_SomeD)
    have shape: "\<exists>cs. calls h' = calls h @ Waitpid (- 1) pid status # cs \<and>
        (\<forall>c d m. c \<in> set cs \<and> c = RemoveAll d m \<longrightarrow> d = pivot_root_dir udf)"
      using assms w u p
      by (auto simp: reloader_iteration_def Let_def emit_def ConnectSendCloneAndExec_def
          split: option.splits if_splits prod.splits)
    then obtain cs where cs0: "calls h' = calls h @ Waitpid (- 1) pid status # cs"
      "\<forall>c d m. c \<in> set cs \<and> c = RemoveAll d m \<longrightarrow> d = pivot_root_dir udf" by blast
    have cs: "\<forall>i d m. i < length cs \<and> cs ! i = RemoveAll d m \<longrightarrow> d = pivot_root_dir udf"
      using cs0(2) nth_mem by metis
    have "removed_only_after_wait (pid_to_udf h) (Waitpid (- 1) pid status # cs)"
      unfolding removed_only_after_wait_def
    proof (intro allI impI)
      fix i d m
      assume a: "i < length (Waitpid (- 1) pid status # cs) \<and>
         (Waitpid (- 1) pid status # cs) ! i = RemoveAll d m"
      then have i0: "0 < i" by (cases i) auto
      with a cs have "d = pivot_root_dir udf" by (cases i) auto
      with i0 mem show "\<exists>j p u a' r' st'. j < i \<and>
          (Waitpid (- 1) pid status # cs) ! j = Waitpid a' r' st' \<and> (a' = p \<or> r' = p) \<and>
          (p, u) \<in> set (pid_to_udf h) \<and> pivot_root_dir u = d"
        by (intro exI [of _ 0] exI [of _ pid] exI [of _ udf] exI [of _ "- 1"]
            exI [of _ status]) simp
    qed
    with cs0(1) show ?thesis by blast
  qed
qed

text \<open>
  C5. In one pass of the reloader loop, and in the shutdown loop over any list of table
  entries, a pivot-root directory is removed only after a \<^verbatim>\<open>waitpid\<close> for the pid that
  the table holds this directory for has returned: on the reloader's path the
  \<^verbatim>\<open>waitpid(-1)\<close> that returned this pid, on the shutdown path the \<^verbatim>\<open>waitpid(pid)\<close>
  that follows the \<^verbatim>\<open>kill\<close> (whatever it returned). The new calls of a run are those
  after the calls made before it.
\<close>

theorem pivot_root_removed_only_after_waitpid:
  "removed_only_after_wait (pid_to_udf h)
     (drop (length (calls h)) (calls (fst (reloader_iteration os mounts socket_name h)))) \<and>
   removed_only_after_wait tbl
     (drop (length (calls h)) (calls (kill_extant_workers os tbl h)))"
proof
  obtain h' ctl where r: "reloader_iteration os mounts socket_name h = (h', ctl)"
    by (cases "reloader_iteration os mounts socket_name h")
  from reloader_iteration_removals [OF r]
  show "removed_only_after_wait (pid_to_udf h)
     (drop (length (calls h)) (calls (fst (reloader_iteration os mounts socket_name h))))"
    by (auto simp: r)
next
  from kill_extant_workers_calls [of os tbl h]
  show "removed_only_after_wait tbl
     (drop (length (calls h)) (calls (kill_extant_workers os tbl h)))"
    by auto
qed

lemma spawned_append: "spawned (xs @ ys) = spawned xs @ spawned ys"
  by (induction xs rule: spawned.induct) simp_all

lemma spawn_ok:
  assumes "ConnectSendCloneAndExec os mounts sock token path h = (h1, Some pp)"
  shows "\<exists>dir. calls h1 = calls h @ [Mkdtemp (Some dir),
            Clone \<lparr>arg_mounts = mounts, arg_pivot_root_dir = dir, arg_socket_name = sock,
              arg_code_token = token, arg_binary_path = path\<rparr> (pp_pid pp)] \<and>
          pp_pivot_root_dir pp = dir"
    and "pid_to_udf h1 = pid_to_udf h" and "files h1 = files h"
  using assms
  by (auto simp: ConnectSendCloneAndExec_def Let_def emit_def split: option.splits if_splits)

lemma recorded_update:
  "recorded token path
     (AList.update p \<lparr>pivot_root_dir = d, code_token = token, binary_path = path\<rparr> tbl) q
   \<longleftrightarrow> q = p \<or> recorded token path tbl q"
  by (auto simp: recorded_def update_conv')

lemma load_loop_spawns:
  assumes "load_loop os mounts sock request path i h = (h', True)"
    and "i \<le> req_n_workers request - 1"
  shows "\<exists>cs. calls h' = calls h @ cs \<and>
           length (spawned cs) = nat (req_n_workers request - 1 - i) \<and>
           (\<forall>a p. (a, p) \<in> set (spawned cs) \<longrightarrow>
              arg_code_token a = req_code_token request \<and> arg_binary_path a = path \<and>
              recorded (req_code_token request) path (pid_to_udf h') p) \<and>
           (\<forall>p. recorded (req_code_token request) path (pid_to_udf h) p \<longrightarrow>
              recorded (req_code_token request) path (pid_to_udf h') p)"
  using assms
proof (induction os mounts sock request path i h rule: load_loop.induct)
  case (1 os mounts sock request path i h)
  show ?case
  proof (cases "i < req_n_workers request - 1")
    case False
    with "1.prems" have "h' = h" "i = req_n_workers request - 1"
      by (simp_all add: load_loop.simps [of os mounts sock request path i h])
    then show ?thesis by simp
  next
    case True
    obtain h1 r where sp: "ConnectSendCloneAndExec os mounts sock (req_code_token request) path h
        = (h1, r)"
      by (cases "ConnectSendCloneAndExec os mounts sock (req_code_token request) path h")
    with "1.prems"(1) True obtain pp where r: "r = Some pp"
      by (cases r) (simp_all add: load_loop.simps [of os mounts sock request path i h])
    define udf where "udf = \<lparr>pivot_root_dir = pp_pivot_root_dir pp,
        code_token = req_code_token request, binary_path = path\<rparr>"
    define h2 where "h2 = h1\<lparr>pid_to_udf := AList.update (pp_pid pp) udf (pid_to_udf h1)\<rparr>"
    have rec: "load_loop os mounts sock request path (i + 1) h2 = (h', True)"
      using "1.prems"(1) True sp r
      by (simp add: load_loop.simps [of os mounts sock request path i h] h2_def udf_def Let_def)
    have le: "i + 1 \<le> req_n_workers request - 1" using True by simp
    from "1.IH" [OF True sp [symmetric] r refl, unfolded Let_def] rec le
    have "\<exists>cs. calls h' = calls h2 @ cs \<and>
           length (spawned cs) = nat (req_n_workers request - 1 - (i + 1)) \<and>
           (\<forall>a p. (a, p) \<in> set (spawned cs) \<longrightarrow>
              arg_code_token a = req_code_token request \<and> arg_binary_path a = path \<and>
              recorded (req_code_token request) path (pid_to_udf h') p) \<and>
           (\<forall>p. recorded (req_code_token request) path (pid_to_udf h2) p \<longrightarrow>
              recorded (req_code_token request) path (pid_to_udf h') p)"
      by (simp add: h2_def udf_def)
    then obtain cs where cs: "calls h' = calls h2 @ cs"
      "length (spawned cs) = nat (req_n_workers request - 1 - (i + 1))"
      "\<forall>a p. (a, p) \<in> set (spawned cs) \<longrightarrow>
              arg_code_token a = req_code_token request \<and> arg_binary_path a = path \<and>
              recorded (req_code_token request) path (pid_to_udf h') p"
      "\<forall>p. recorded (req_code_token request) path (pid_to_udf h2) p \<longrightarrow>
              recorded (req_code_token request) path (pid_to_udf h') p"
      by blast
    from spawn_ok [OF sp [unfolded r]] obtain dir where
      c1: "calls h1 = calls h @ [Mkdtemp (Some dir),
            Clone \<lparr>arg_mounts = mounts, arg_pivot_root_dir = dir, arg_socket_name = sock,
              arg_code_token = req_code_token request, arg_binary_path = path\<rparr> (pp_pid pp)]"
      and t1: "pid_to_udf h1 = pid_to_udf h"
      by blast
    have rec2: "\<And>q. recorded (req_code_token request) path (pid_to_udf h2) q \<longleftrightarrow>
        q = pp_pid pp \<or> recorded (req_code_token request) path (pid_to_udf h) q"
      by (simp add: h2_def udf_def t1 recorded_update)
    let ?new = "[Mkdtemp (Some dir),
            Clone \<lparr>arg_mounts = mounts, arg_pivot_root_dir = dir, arg_socket_name = sock,
              arg_code_token = req_code_token request, arg_binary_path = path\<rparr> (pp_pid pp)] @ cs"
    have "calls h' = calls h @ ?new" by (simp add: cs(1) h2_def c1)
    moreover have "length (spawned ?new) = nat (req_n_workers request - 1 - i)"
      using cs(2) True by (simp add: spawned_append)
    moreover have "\<forall>a p. (a, p) \<in> set (spawned ?new) \<longrightarrow>
              arg_code_token a = req_code_token request \<and> arg_binary_path a = path \<and>
              recorded (req_code_token request) path (pid_to_udf h') p"
      using cs(3) cs(4) rec2 by (auto simp: spawned_append)
    moreover have "\<forall>p. recorded (req_code_token request) path (pid_to_udf h) p \<longrightarrow>
              recorded (req_code_token request) path (pid_to_udf h') p"
      using cs(4) rec2 by blast
    ultimately show ?thesis by blast
  qed
qed


lemma store_binary_ok:
  assumes "store_binary os progdir request h = (h1, Some path)"
  shows "path = path_join progdir (uuid_result os (tick h))"
    and "pid_to_udf h1 = pid_to_udf h"
    and "\<exists>res. calls h1 = calls h @ [GenerateUuid (uuid_result os (tick h)),
           OfstreamWrite path (req_binary_content request) res,
           Permissions path {owner_exec, owner_read}]"
  using assms
  by (auto simp: store_binary_def Let_def emit_def split: option.splits stream_result.splits)

text \<open>
  C4. A load request with \<open>1 \<le> n_workers\<close> that is handled without a failed check spawns
  exactly \<open>n_workers\<close> workers: \<open>n_workers - 1\<close> in the loop and one after it. Every one is
  cloned with the request's code token and the path of the stored binary, and its pid
  is recorded in \<^verbatim>\<open>pid_to_udf\<close> with that code token and that path.
\<close>

theorem load_request_spawns_n_workers:
  assumes n: "1 \<le> req_n_workers request"
    and run: "handle_load os mounts socket_name progdir request h = (h', True)"
  shows "\<exists>h1 h2 path.
           store_binary os progdir request h = (h1, Some path) \<and>
           load_loop os mounts socket_name request path 0 h1 = (h2, True) \<and>
           length (spawned (drop (length (calls h1)) (calls h2))) = nat (req_n_workers request - 1) \<and>
           length (spawned (drop (length (calls h2)) (calls h'))) = 1 \<and>
           length (spawned (drop (length (calls h)) (calls h'))) = nat (req_n_workers request) \<and>
           (\<forall>a p. (a, p) \<in> set (spawned (drop (length (calls h)) (calls h'))) \<longrightarrow>
              arg_code_token a = req_code_token request \<and> arg_binary_path a = path \<and>
              recorded (req_code_token request) path (pid_to_udf h') p)"
proof -
  obtain h1 r1 where st: "store_binary os progdir request h = (h1, r1)"
    by (cases "store_binary os progdir request h")
  with run obtain path where r1: "r1 = Some path"
    by (cases r1) (simp_all add: handle_load_def)
  obtain h2 ok where ll: "load_loop os mounts socket_name request path 0 h1 = (h2, ok)"
    by (cases "load_loop os mounts socket_name request path 0 h1")
  with run st r1 have ok: "ok" by (cases ok) (simp_all add: handle_load_def)
  obtain h3 r3 where sp: "ConnectSendCloneAndExec os mounts socket_name
      (req_code_token request) path h2 = (h3, r3)"
    by (cases "ConnectSendCloneAndExec os mounts socket_name (req_code_token request) path h2")
  with run st r1 ll ok obtain pp where r3: "r3 = Some pp"
    by (cases r3) (simp_all add: handle_load_def)
  have h': "h' = h3\<lparr>pid_to_udf := AList.update (pp_pid pp)
      \<lparr>pivot_root_dir = pp_pivot_root_dir pp, code_token = req_code_token request,
        binary_path = path\<rparr> (pid_to_udf h3)\<rparr>"
    using run st r1 ll ok sp r3 by (simp add: handle_load_def Let_def)
  from store_binary_ok [OF st [unfolded r1]] obtain res where
    c1: "calls h1 = calls h @ [GenerateUuid (uuid_result os (tick h)),
           OfstreamWrite path (req_binary_content request) res,
           Permissions path {owner_exec, owner_read}]"
    by blast
  have "0 \<le> req_n_workers request - 1" using n by simp
  from load_loop_spawns [OF ll [unfolded ok [THEN eqTrueI]] this]
  obtain cs where cs: "calls h2 = calls h1 @ cs"
    "length (spawned cs) = nat (req_n_workers request - 1 - 0)"
    "\<forall>a p. (a, p) \<in> set (spawned cs) \<longrightarrow>
        arg_code_token a = req_code_token request \<and> arg_binary_path a = path \<and>
        recorded (req_code_token request) path (pid_to_udf h2) p"
    by blast
  from spawn_ok [OF sp [unfolded r3]] obtain dir where
    c3: "calls h3 = calls h2 @ [Mkdtemp (Some dir),
            Clone \<lparr>arg_mounts = mounts, arg_pivot_root_dir = dir, arg_socket_name = socket_name,
              arg_code_token = req_code_token request, arg_binary_path = path\<rparr> (pp_pid pp)]"
    and t3: "pid_to_udf h3 = pid_to_udf h2"
    by blast
  have rec: "\<And>q. recorded (req_code_token request) path (pid_to_udf h') q \<longleftrightarrow>
      q = pp_pid pp \<or> recorded (req_code_token request) path (pid_to_udf h2) q"
    by (simp add: h' t3 recorded_update)
  have ch': "calls h' = calls h3" by (simp add: h')
  have a: "length (spawned (drop (length (calls h1)) (calls h2))) = nat (req_n_workers request - 1)"
    using cs(1) cs(2) by simp
  have b: "length (spawned (drop (length (calls h2)) (calls h'))) = 1"
    by (simp add: ch' c3)
  have new: "drop (length (calls h)) (calls h') =
      [GenerateUuid (uuid_result os (tick h)),
       OfstreamWrite path (req_binary_content request) res,
       Permissions path {owner_exec, owner_read}] @ cs @
      [Mkdtemp (Some dir),
       Clone \<lparr>arg_mounts = mounts, arg_pivot_root_dir = dir, arg_socket_name = socket_name,
         arg_code_token = req_code_token request, arg_binary_path = path\<rparr> (pp_pid pp)]"
    by (simp add: ch' c3 cs(1) c1)
  have c: "length (spawned (drop (length (calls h)) (calls h'))) = nat (req_n_workers request)"
    unfolding new using cs(2) n by (simp add: spawned_append)
  have d: "\<forall>a p. (a, p) \<in> set (spawned (drop (length (calls h)) (calls h'))) \<longrightarrow>
      arg_code_token a = req_code_token request \<and> arg_binary_path a = path \<and>
      recorded (req_code_token request) path (pid_to_udf h') p"
    unfolding new using cs(3) rec by (auto simp: spawned_append)
  have st': "store_binary os progdir request h = (h1, Some path)" using st r1 by simp
  have ll': "load_loop os mounts socket_name request path 0 h1 = (h2, True)" using ll ok by simp
  show ?thesis
    by (intro exI [of _ h1] exI [of _ h2] exI [of _ path] conjI st' ll' a b c d)
qed

text \<open>
  C8. For a load request whose output stream opens and takes all the bytes, the binary
  content is written to the file named by a newly drawn UUID inside the artifact
  directory (no other name in that directory gives the same path), and after the write
  the file's permission bits are set to exactly owner-read and owner-execute.
\<close>

theorem binary_stored_then_made_executable:
  assumes wrote: "ofstream_result os (tick h + 1) = Wrote n"
    and full: "length (req_binary_content request) \<le> n"
  shows "\<exists>h'. store_binary os progdir request h =
             (h', Some (path_join progdir (uuid_result os (tick h)))) \<and>
           files h' (path_join progdir (uuid_result os (tick h))) =
             Some \<lparr>content = req_binary_content request, mode = {owner_exec, owner_read}\<rparr> \<and>
           drop (length (calls h)) (calls h') =
             [GenerateUuid (uuid_result os (tick h)),
              OfstreamWrite (path_join progdir (uuid_result os (tick h)))
                (req_binary_content request) (Wrote n),
              Permissions (path_join progdir (uuid_result os (tick h))) {owner_exec, owner_read}] \<and>
           (\<forall>name. path_join progdir name = path_join progdir (uuid_result os (tick h)) \<longrightarrow>
              name = uuid_result os (tick h))"
  using assms
  by (simp add: store_binary_def Let_def emit_def path_join_def)

text \<open>The shutdown loop over the example's table, and the theorems at the example.\<close>

lemma example_shutdown:
  "kill_extant_workers (example_os 4141 (Signaled 9)) (pid_to_udf example_host) example_host =
     example_host\<lparr>tick := 3,
       calls := [Kill 4141 0, Waitpid 4141 4141 (Signaled 9),
                 RemoveAll ''/tmp/roma_app_server_a1B2c3'' 3]\<rparr>"
  by (simp add: example_os_def example_host_def example_udf_def emit_def Let_def)

theorem pivot_root_removed_only_after_waitpid_witness:
  "calls (fst (reloader_iteration (example_os 4141 (Exited 0)) [''/lib'', ''/lib64'']
      ''/sockdir/abcd.sock'' example_host)) ! 3 = RemoveAll ''/tmp/roma_app_server_a1B2c3'' 3 \<and>
   removed_only_after_wait (pid_to_udf example_host)
     (calls (fst (reloader_iteration (example_os 4141 (Exited 0)) [''/lib'', ''/lib64'']
        ''/sockdir/abcd.sock'' example_host))) \<and>
   removed_only_after_wait (pid_to_udf example_host)
     [Kill 4141 0, Waitpid 4141 4141 (Signaled 9), RemoveAll ''/tmp/roma_app_server_a1B2c3'' 3]"
proof -
  have c0: "calls example_host = []" by (simp add: example_host_def)
  have a: "calls (fst (reloader_iteration (example_os 4141 (Exited 0)) [''/lib'', ''/lib64'']
      ''/sockdir/abcd.sock'' example_host)) ! 3 = RemoveAll ''/tmp/roma_app_server_a1B2c3'' 3"
    by (simp add: example_run_exit0)
  from pivot_root_removed_only_after_waitpid [where h = example_host
      and os = "example_os 4141 (Exited 0)" and mounts = "[''/lib'', ''/lib64'']"
      and socket_name = "''/sockdir/abcd.sock''"]
  have b: "removed_only_after_wait (pid_to_udf example_host)
     (calls (fst (reloader_iteration (example_os 4141 (Exited 0)) [''/lib'', ''/lib64'']
        ''/sockdir/abcd.sock'' example_host)))"
    by (simp add: c0)
  from pivot_root_removed_only_after_waitpid [where h = example_host
      and os = "example_os 4141 (Signaled 9)" and tbl = "pid_to_udf example_host"]
  have "removed_only_after_wait (pid_to_udf example_host)
     (drop (length (calls example_host)) (calls (kill_extant_workers (example_os 4141 (Signaled 9))
        (pid_to_udf example_host) example_host)))" ..
  then have c: "removed_only_after_wait (pid_to_udf example_host)
     [Kill 4141 0, Waitpid 4141 4141 (Signaled 9), RemoveAll ''/tmp/roma_app_server_a1B2c3'' 3]"
    unfolding example_shutdown by (simp add: c0)
  from a b c show ?thesis by blast
qed

lemma example_load_runs:
  "snd (handle_load (example_os 4141 (Exited 0)) [''/lib'', ''/lib64''] ''/sockdir/abcd.sock''
     ''/tmp/progdir'' example_request example_host) = True"
  by (simp add: handle_load_def store_binary_def load_loop.simps ConnectSendCloneAndExec_def
      Let_def emit_def path_join_def example_os_def example_host_def example_request_def)

theorem load_request_spawns_n_workers_witness:
  "1 \<le> req_n_workers example_request \<and>
   snd (handle_load (example_os 4141 (Exited 0)) [''/lib'', ''/lib64''] ''/sockdir/abcd.sock''
     ''/tmp/progdir'' example_request example_host) = True \<and>
   length (spawned (drop (length (calls example_host))
     (calls (fst (handle_load (example_os 4141 (Exited 0)) [''/lib'', ''/lib64'']
        ''/sockdir/abcd.sock'' ''/tmp/progdir'' example_request example_host))))) = 3"
proof -
  have n: "1 \<le> req_n_workers example_request" by (simp add: example_request_def)
  have run: "handle_load (example_os 4141 (Exited 0)) [''/lib'', ''/lib64''] ''/sockdir/abcd.sock''
     ''/tmp/progdir'' example_request example_host =
     (fst (handle_load (example_os 4141 (Exited 0)) [''/lib'', ''/lib64''] ''/sockdir/abcd.sock''
     ''/tmp/progdir'' example_request example_host), True)"
    using example_load_runs by (simp add: prod_eq_iff)
  from load_request_spawns_n_workers [OF n run]
  have "length (spawned (drop (length (calls example_host))
     (calls (fst (handle_load (example_os 4141 (Exited 0)) [''/lib'', ''/lib64'']
        ''/sockdir/abcd.sock'' ''/tmp/progdir'' example_request example_host))))) =
     nat (req_n_workers example_request)"
    by blast
  then show ?thesis using n example_load_runs by (simp add: example_request_def)
qed

theorem binary_stored_then_made_executable_witness:
  "ofstream_result (example_os 4141 (Exited 0)) (tick example_host + 1) = Wrote 4 \<and>
   length (req_binary_content example_request) \<le> 4 \<and>
   files (fst (store_binary (example_os 4141 (Exited 0)) ''/tmp/progdir'' example_request
       example_host)) ''/tmp/progdir/0a9b8c7d-1111-4222-8333-444455556666'' =
     Some \<lparr>content = ''#!sh'', mode = {owner_exec, owner_read}\<rparr>"
proof -
  have a: "ofstream_result (example_os 4141 (Exited 0)) (tick example_host + 1) = Wrote 4"
    by (simp add: example_os_def)
  have b: "length (req_binary_content example_request) \<le> 4"
    by (simp add: example_request_def)
  have u: "path_join ''/tmp/progdir'' (uuid_result (example_os 4141 (Exited 0)) (tick example_host))
      = ''/tmp/progdir/0a9b8c7d-1111-4222-8333-444455556666''"
    by (simp add: path_join_def example_os_def)
  from binary_stored_then_made_executable [OF a b, of "''/tmp/progdir''"]
  have "files (fst (store_binary (example_os 4141 (Exited 0)) ''/tmp/progdir'' example_request
       example_host)) ''/tmp/progdir/0a9b8c7d-1111-4222-8333-444455556666'' =
     Some \<lparr>content = req_binary_content example_request, mode = {owner_exec, owner_read}\<rparr>"
    unfolding u by auto
  then show ?thesis using a b by (simp add: example_request_def)
qed



subsection \<open>Decimal strings\<close>

lemma isdigit_digit_char: "d < 10 \<Longrightarrow> isdigit (digit_char d)"
  by (simp add: isdigit_def digit_char_def)

lemma digit_val_digit_char: "d < 10 \<Longrightarrow> digit_val (digit_char d) = d"
  by (simp add: digit_val_def digit_char_def)

lemma decimal_value_snoc: "decimal_value (ds @ [c]) = decimal_value ds * 10 + digit_val c"
  by (simp add: decimal_value_def)

lemma digits_of_digits: "c \<in> set (digits_of n) \<Longrightarrow> isdigit c"
proof (induction n arbitrary: c rule: digits_of.induct)
  case (1 n)
  show ?case
  proof (cases "n < 10")
    case True
    with "1.prems" show ?thesis
      by (simp add: digits_of.simps [of n] isdigit_digit_char)
  next
    case False
    with "1.prems" "1.IH" show ?thesis
      by (auto simp: digits_of.simps [of n] isdigit_digit_char)
  qed
qed

lemma digits_of_nonempty: "digits_of n \<noteq> []"
  by (simp add: digits_of.simps [of n])

lemma decimal_value_digits_of: "decimal_value (digits_of n) = n"
proof (induction n rule: digits_of.induct)
  case (1 n)
  show ?case
  proof (cases "n < 10")
    case True
    then show ?thesis
      by (simp add: digits_of.simps [of n] decimal_value_def digit_val_digit_char)
  next
    case False
    with "1.IH" show ?thesis
      by (simp add: digits_of.simps [of n] decimal_value_snoc digit_val_digit_char)
  qed
qed

lemma isdigit_plain: "isdigit c \<Longrightarrow> \<not> isspace c \<and> c \<noteq> CHR ''-'' \<and> c \<noteq> CHR ''+''"
  by (auto simp: isdigit_def isspace_def)

lemma stoi_digits_of:
  assumes "int n < 2 ^ 31"
  shows "stoi (digits_of n) = Some (int n)"
proof -
  obtain c cs where cs: "digits_of n = c # cs"
    using digits_of_nonempty [of n] by (cases "digits_of n") auto
  have c: "isdigit c" using digits_of_digits [of c n] cs by simp
  have all: "takeWhile isdigit (digits_of n) = digits_of n"
    using digits_of_digits by (simp add: takeWhile_eq_all_conv)
  have drop: "dropWhile isspace (digits_of n) = digits_of n"
    using isdigit_plain [OF c] by (simp add: cs)
  have hd: "hd (digits_of n) \<noteq> CHR ''-''" "hd (digits_of n) \<noteq> CHR ''+''"
    using isdigit_plain [OF c] by (simp_all add: cs)
  show ?thesis
    using assms
    by (simp add: stoi_def drop hd all digits_of_nonempty decimal_value_digits_of Let_def)
qed

lemma stoi_minus_digits_of:
  assumes "int n \<le> 2 ^ 31"
  shows "stoi (CHR ''-'' # digits_of n) = Some (- int n)"
proof -
  have all: "takeWhile isdigit (digits_of n) = digits_of n"
    using digits_of_digits by (simp add: takeWhile_eq_all_conv)
  have sp: "\<not> isspace CHR ''-''" by (simp add: isspace_def)
  show ?thesis
    using assms
    by (simp add: stoi_def sp all digits_of_nonempty decimal_value_digits_of Let_def)
qed

lemma stoi_StrCat_int:
  assumes "- (2 ^ 31) \<le> d" and "d < 2 ^ 31"
  shows "stoi (StrCat_int d) = Some d"
proof (cases "d < 0")
  case True
  then have "int (nat (- d)) \<le> 2 ^ 31" using assms by simp
  from stoi_minus_digits_of [OF this] True show ?thesis
    by (simp add: StrCat_int_def)
next
  case False
  then have "int (nat d) < 2 ^ 31" using assms by simp
  from stoi_digits_of [OF this] False show ?thesis
    by (simp add: StrCat_int_def)
qed

subsection \<open>The shape of the child's calls\<close>

lemma sys_eq: "sys ret c s = (r, s') \<longleftrightarrow>
    r = ret (step s) \<and> s' = \<lparr>step = step s + 1, ctrace = ctrace s @ [(c, ret (step s))]\<rparr>"
  by (auto simp: sys_def)

lemma bind_mounts_trace:
  "bind_mounts ret dir ms s = (s', ok) \<Longrightarrow>
   \<exists>es. ctrace s' = ctrace s @ es \<and> (\<forall>e \<in> set es. is_fs_setup (fst e))"
proof (induction ms arbitrary: s)
  case Nil
  then show ?case by simp
next
  case (Cons m ms)
  show ?case
  proof (cases "ret (step s) = 1 \<and> ret (step s + 1) = 0")
    case False
    with Cons.prems show ?thesis
      by (auto simp: sys_def Let_def split: if_splits)
  next
    case True
    define s2 where "s2 = \<lparr>step = step s + 1 + 1, ctrace = (ctrace s @
        [(CreateDirectories (dir @ m), ret (step s))]) @
        [(Mount (Some m) (dir @ m) None [MS_BIND], ret (step s + 1))]\<rparr>"
    from Cons.prems True have "bind_mounts ret dir ms s2 = (s', ok)"
      by (simp add: sys_def Let_def s2_def)
    from Cons.IH [OF this] obtain es where "ctrace s' = ctrace s2 @ es"
      "\<forall>e \<in> set es. is_fs_setup (fst e)" by blast
    then have "ctrace s' = ctrace s @ ([(CreateDirectories (dir @ m), ret (step s)),
        (Mount (Some m) (dir @ m) None [MS_BIND], ret (step s + 1))] @ es) \<and>
      (\<forall>e \<in> set ([(CreateDirectories (dir @ m), ret (step s)),
        (Mount (Some m) (dir @ m) None [MS_BIND], ret (step s + 1))] @ es). is_fs_setup (fst e))"
      by (simp add: s2_def)
    then show ?thesis by blast
  qed
qed

lemma remount_all_trace:
  "remount_all ret ms s = (s', ok) \<Longrightarrow>
   \<exists>es. ctrace s' = ctrace s @ es \<and> (\<forall>e \<in> set es. is_fs_setup (fst e))"
proof (induction ms arbitrary: s)
  case Nil
  then show ?case by simp
next
  case (Cons m ms)
  show ?case
  proof (cases "ret (step s) = 0")
    case False
    with Cons.prems show ?thesis
      by (auto simp: sys_def Let_def split: if_splits)
  next
    case True
    define s1 where "s1 = \<lparr>step = step s + 1, ctrace = ctrace s @
        [(Mount (Some m) m None [MS_REMOUNT, MS_BIND], ret (step s))]\<rparr>"
    from Cons.prems True have "remount_all ret ms s1 = (s', ok)"
      by (simp add: sys_def Let_def s1_def)
    from Cons.IH [OF this] obtain es where "ctrace s' = ctrace s1 @ es"
      "\<forall>e \<in> set es. is_fs_setup (fst e)" by blast
    then have "ctrace s' = ctrace s @
        ([(Mount (Some m) m None [MS_REMOUNT, MS_BIND], ret (step s))] @ es) \<and>
      (\<forall>e \<in> set ([(Mount (Some m) m None [MS_REMOUNT, MS_BIND], ret (step s))] @ es).
          is_fs_setup (fst e))"
      by (simp add: s1_def)
    then show ?thesis by blast
  qed
qed

lemma setup_filesystem_trace:
  assumes "setup_filesystem ret arg s = (s', ok)"
  shows "\<exists>es. ctrace s' = ctrace s @ es \<and> (\<forall>e \<in> set es. is_fs_setup (fst e))"
  using assms
  unfolding setup_filesystem_def Let_def sys_def
  by (auto split: prod.splits if_splits bool.splits
      dest!: bind_mounts_trace remount_all_trace)

lemma setup_filesystem_done:
  assumes "setup_filesystem ret arg s = (s', True)"
  shows "\<exists>es. ctrace s' = ctrace s @ es \<and>
    (PivotRoot (arg_pivot_root_dir arg) (arg_pivot_root_dir arg @ ''/pivot''), 0) \<in> set es"
  using assms
  unfolding setup_filesystem_def Let_def sys_def
  by (auto split: prod.splits if_splits bool.splits
      dest!: bind_mounts_trace remount_all_trace)

lemma exec_binary_trace:
  assumes "exec_binary ret arg fd s = (s', e)"
  shows "ctrace s' = ctrace s @
      (if ret (step s) = - 1 then [(Dup fd, - 1)]
       else [(Dup fd, ret (step s)),
             (Execl (arg_binary_path arg) [arg_binary_path arg, StrCat_int (ret (step s))],
              ret (step s + 1))])"
    and "e = (if ret (step s) \<noteq> - 1 \<and> ret (step s + 1) = 0
              then Execed (arg_binary_path arg) [arg_binary_path arg, StrCat_int (ret (step s))]
              else Aborted)"
  using assms
  by (auto simp: exec_binary_def Let_def sys_def split: if_splits)

text \<open>The calls of a whole run, from the first new call on.\<close>

lemma WorkerImpl_shape:
  assumes run: "WorkerImpl ret mem arg s = (s', e)"
  defines "fd \<equiv> ret (step s)"
  defines "hs \<equiv> [(Socket, fd), (Connect fd (arg_socket_name arg), 0),
                   (WriteFd fd (take 36 (arg_code_token arg @ mem)) 36, 36)]"
  shows "(ctrace s' = ctrace s @ [(Socket, - 1)] \<and> fd = - 1 \<and> e = Aborted) \<or>
    (ret (step s + 1) \<noteq> 0 \<and> fd \<noteq> - 1 \<and> e = Returned (- 1) \<and>
        ctrace s' = ctrace s @ [(Socket, fd),
          (Connect fd (arg_socket_name arg), ret (step s + 1))]) \<or>
    (ret (step s + 2) \<noteq> 36 \<and> fd \<noteq> - 1 \<and> e = Aborted \<and>
        ctrace s' = ctrace s @ [(Socket, fd), (Connect fd (arg_socket_name arg), 0),
          (WriteFd fd (take 36 (arg_code_token arg @ mem)) 36, ret (step s + 2))]) \<or>
    (\<exists>fs. fd \<noteq> - 1 \<and> ret (step s + 2) = 36 \<and> e = Aborted \<and> ctrace s' = ctrace s @ hs @ fs \<and>
        (\<forall>c \<in> set fs. is_fs_setup (fst c))) \<or>
    (\<exists>fs. fd \<noteq> - 1 \<and> ret (step s + 2) = 36 \<and> e = Aborted \<and>
        ctrace s' = ctrace s @ hs @ fs @ [(Dup fd, - 1)] \<and>
        (\<forall>c \<in> set fs. is_fs_setup (fst c)) \<and>
        (PivotRoot (arg_pivot_root_dir arg) (arg_pivot_root_dir arg @ ''/pivot''), 0)
          \<in> set fs) \<or>
    (\<exists>fs d r. fd \<noteq> - 1 \<and> ret (step s + 2) = 36 \<and> d \<noteq> - 1 \<and>
        ctrace s' = ctrace s @ hs @ fs @ [(Dup fd, d),
          (Execl (arg_binary_path arg) [arg_binary_path arg, StrCat_int d], r)] \<and>
        (\<forall>c \<in> set fs. is_fs_setup (fst c)) \<and>
        (PivotRoot (arg_pivot_root_dir arg) (arg_pivot_root_dir arg @ ''/pivot''), 0)
          \<in> set fs \<and>
        e = (if r = 0 then Execed (arg_binary_path arg) [arg_binary_path arg, StrCat_int d]
             else Aborted))"
proof -
  define s1 where "s1 = \<lparr>step = step s + 1, ctrace = ctrace s @ [(Socket, fd)]\<rparr>"
  define c where "c = ret (step s + 1)"
  define s2 where "s2 = \<lparr>step = step s + 2,
      ctrace = ctrace s @ [(Socket, fd), (Connect fd (arg_socket_name arg), c)]\<rparr>"
  define w where "w = ret (step s + 2)"
  define s3 where "s3 = \<lparr>step = step s + 3,
      ctrace = ctrace s @ [(Socket, fd), (Connect fd (arg_socket_name arg), c),
        (WriteFd fd (take 36 (arg_code_token arg @ mem)) 36, w)]\<rparr>"
  show ?thesis
  proof (cases "fd = - 1")
    case True
    with run show ?thesis by (auto simp: WorkerImpl_def sys_def fd_def Let_def)
  next
    case fd: False
    show ?thesis
    proof (cases "c = 0")
      case False
      with run fd have "e = Returned (- 1)" "s' = s2"
        by (simp_all add: WorkerImpl_def sys_def fd_def c_def s2_def Let_def)
      with False fd show ?thesis by (simp add: s2_def c_def)
    next
      case c0: True
      show ?thesis
      proof (cases "w = 36")
        case False
        with run fd c0 have "e = Aborted" "s' = s3"
          by (simp_all add: WorkerImpl_def sys_def fd_def c_def w_def s3_def Let_def
              numeral_2_eq_2 numeral_3_eq_3)
        with False fd c0 show ?thesis by (simp add: s3_def w_def)
      next
        case w36: True
        have t3: "ctrace s3 = ctrace s @ hs" by (simp add: s3_def hs_def c0 w36)
        have w': "ret (step s + 2) = 36" using w36 by (simp add: w_def)
        obtain s4 ok where fsr: "setup_filesystem ret arg s3 = (s4, ok)"
          by (cases "setup_filesystem ret arg s3")
        from setup_filesystem_trace [OF fsr] obtain fs where
          fs: "ctrace s4 = ctrace s3 @ fs" "\<forall>c \<in> set fs. is_fs_setup (fst c)" by blast
        have rest: "(case setup_filesystem ret arg s3 of
              (s4, False) \<Rightarrow> (s4, Aborted)
            | (s4, True) \<Rightarrow> exec_binary ret arg fd s4) = (s', e)"
          using run fd c0 w36 unfolding fd_def c_def w_def s3_def
          by (simp add: WorkerImpl_def sys_def Let_def numeral_2_eq_2 numeral_3_eq_3)
        show ?thesis
        proof (cases ok)
          case False
          with rest fsr have "e = Aborted" "s' = s4" by simp_all
          with fs t3 fd w' show ?thesis by auto
        next
          case True
          with rest fsr have ex: "exec_binary ret arg fd s4 = (s', e)" by simp
          have pv: "(PivotRoot (arg_pivot_root_dir arg) (arg_pivot_root_dir arg @ ''/pivot''), 0)
              \<in> set fs"
          proof -
            have "setup_filesystem ret arg s3 = (s4, True)" using fsr True by simp
            from setup_filesystem_done [OF this] fs(1) show ?thesis by auto
          qed
          note tr = exec_binary_trace [OF ex]
          show ?thesis
          proof (cases "ret (step s4) = - 1")
            case True
            with tr have "e = Aborted" "ctrace s' = ctrace s @ hs @ fs @ [(Dup fd, - 1)]"
              by (simp_all add: fs t3)
            with fs(2) fd w' pv show ?thesis by blast
          next
            case False
            with tr have "ctrace s' = ctrace s @ hs @ fs @ [(Dup fd, ret (step s4)),
                (Execl (arg_binary_path arg) [arg_binary_path arg, StrCat_int (ret (step s4))],
                 ret (step s4 + 1))]"
              "e = (if ret (step s4 + 1) = 0
                 then Execed (arg_binary_path arg) [arg_binary_path arg, StrCat_int (ret (step s4))]
                 else Aborted)"
              by (simp_all add: fs t3)
            with fs(2) fd False w' pv show ?thesis by blast
          qed
        qed
      qed
    qed
  qed
qed

lemma fs_setup_not_handshake: "is_fs_setup c \<Longrightarrow> \<not> is_handshake c"
  by (cases c) simp_all

lemma setup_after_handshake_no_setup:
  "\<forall>c \<in> set cs. \<not> is_fs_setup c \<Longrightarrow> setup_after_handshake cs"
  by (auto simp: setup_after_handshake_def)

lemma setup_after_handshake_prefix:
  assumes "\<forall>c \<in> set rest. \<not> is_handshake c"
  shows "setup_after_handshake (Socket # Connect fd p # WriteFd fd' b n # rest)"
  unfolding setup_after_handshake_def
proof (intro allI impI)
  fix i j
  let ?cs = "Socket # Connect fd p # WriteFd fd' b n # rest"
  assume a: "i < length ?cs \<and> j < length ?cs \<and> is_handshake (?cs ! i) \<and> is_fs_setup (?cs ! j)"
  have "i < 3"
  proof (rule ccontr)
    assume "\<not> i < 3"
    then have "?cs ! i = rest ! (i - 3)" "i - 3 < length rest"
      using a by (auto simp: nth_Cons' eval_nat_numeral)
    with assms a show False by (metis nth_mem)
  qed
  moreover have "3 \<le> j"
  proof (rule ccontr)
    assume "\<not> 3 \<le> j"
    then have "j = 0 \<or> j = 1 \<or> j = 2" by arith
    with a show False by auto
  qed
  ultimately show "i < j" by simp
qed

text \<open>The run of the example child: every call, with what it returned.\<close>

lemma example_child_run:
  "WorkerImpl example_ret [] example_arg \<lparr>step = 0, ctrace = []\<rparr> =
     (\<lparr>step = 22, ctrace =
        [(Socket, 3),
         (Connect 3 ''/sockdir/abcd.sock'', 0),
         (WriteFd 3 ''6f1b0c52-7d3e-4a8f-9b21-0c5de47a93f1'' 36, 36),
         (Mount None ''/'' None [MS_REC, MS_PRIVATE], 0),
         (CreateDirectories ''/tmp/roma_app_server_x9Y8z7/lib'', 1),
         (Mount (Some ''/lib'') ''/tmp/roma_app_server_x9Y8z7/lib'' None [MS_BIND], 0),
         (CreateDirectories ''/tmp/roma_app_server_x9Y8z7/lib64'', 1),
         (Mount (Some ''/lib64'') ''/tmp/roma_app_server_x9Y8z7/lib64'' None [MS_BIND], 0),
         (CreateDirectories ''/tmp/roma_app_server_x9Y8z7/tmp/progdir'', 1),
         (Mount (Some ''/tmp/progdir'') ''/tmp/roma_app_server_x9Y8z7/tmp/progdir'' None
            [MS_BIND], 0),
         (Mount (Some ''/tmp/roma_app_server_x9Y8z7'') ''/tmp/roma_app_server_x9Y8z7''
            (Some ''bind'') [MS_REC, MS_BIND], 0),
         (Mount (Some ''/tmp/roma_app_server_x9Y8z7'') ''/tmp/roma_app_server_x9Y8z7''
            (Some ''bind'') [MS_REC, MS_SLAVE], 0),
         (CreateDirectories ''/tmp/roma_app_server_x9Y8z7/pivot'', 1),
         (PivotRoot ''/tmp/roma_app_server_x9Y8z7'' ''/tmp/roma_app_server_x9Y8z7/pivot'', 0),
         (Chdir ''/'', 0),
         (Umount2 ''/pivot'', 0),
         (Mount (Some ''/lib'') ''/lib'' None [MS_REMOUNT, MS_BIND], 0),
         (Mount (Some ''/lib64'') ''/lib64'' None [MS_REMOUNT, MS_BIND], 0),
         (Mount (Some ''/tmp/progdir'') ''/tmp/progdir'' None [MS_REMOUNT, MS_BIND], 0),
         (Mount (Some ''/tmp/progdir'') ''/tmp/progdir'' None [MS_REMOUNT, MS_BIND], 0),
         (Dup 3, 4),
         (Execl ''/tmp/progdir/udf'' [''/tmp/progdir/udf'', ''4''], 0)]\<rparr>,
      Execed ''/tmp/progdir/udf'' [''/tmp/progdir/udf'', ''4''])"
  by (simp add: WorkerImpl_def setup_filesystem_def exec_binary_def sys_def Let_def
      example_ret_def example_arg_def example_token_def parent_path_def
      StrCat_int_def digits_of.simps digit_char_def char_of_def bit_iff_odd)

text \<open>The handshake comes first, in every run.\<close>

lemma handshake_first:
  assumes run: "WorkerImpl ret mem arg s = (s', e)"
  shows "setup_after_handshake (map fst (drop (length (ctrace s)) (ctrace s'))) \<and>
    (\<forall>j. j < length (drop (length (ctrace s)) (ctrace s')) \<and>
         is_fs_setup (fst (drop (length (ctrace s)) (ctrace s') ! j)) \<longrightarrow>
       3 \<le> j \<and>
       take 3 (drop (length (ctrace s)) (ctrace s')) =
         [(Socket, ret (step s)),
          (Connect (ret (step s)) (arg_socket_name arg), 0),
          (WriteFd (ret (step s)) (take 36 (arg_code_token arg @ mem)) 36, 36)])"
proof -
  let ?goal = ?thesis
  let ?fd = "ret (step s)"
  let ?new = "drop (length (ctrace s)) (ctrace s')"
  let ?hs = "[(Socket, ?fd), (Connect ?fd (arg_socket_name arg), 0),
              (WriteFd ?fd (take 36 (arg_code_token arg @ mem)) 36, 36)]"
  have short: "\<And>cs. ?new = cs \<Longrightarrow> \<forall>c \<in> set cs. \<not> is_fs_setup (fst c) \<Longrightarrow> ?goal"
  proof -
    fix cs assume new: "?new = cs" and no: "\<forall>c \<in> set cs. \<not> is_fs_setup (fst c)"
    have "setup_after_handshake (map fst cs)"
      by (rule setup_after_handshake_no_setup) (use no in auto)
    moreover have "\<And>j. j < length cs \<Longrightarrow> \<not> is_fs_setup (fst (cs ! j))"
      using no nth_mem by blast
    ultimately show ?goal by (auto simp: new)
  qed
  have long: "\<And>rest. ?new = ?hs @ rest \<Longrightarrow> \<forall>c \<in> set rest. \<not> is_handshake (fst c) \<Longrightarrow> ?goal"
  proof -
    fix rest assume new: "?new = ?hs @ rest" and no: "\<forall>c \<in> set rest. \<not> is_handshake (fst c)"
    have "setup_after_handshake (Socket # Connect ?fd (arg_socket_name arg) #
        WriteFd ?fd (take 36 (arg_code_token arg @ mem)) 36 # map fst rest)"
      by (rule setup_after_handshake_prefix) (use no in auto)
    then have a: "setup_after_handshake (map fst ?new)" by (simp add: new)
    have b: "\<And>j. j < length ?new \<Longrightarrow> is_fs_setup (fst (?new ! j)) \<Longrightarrow> 3 \<le> j"
    proof (rule ccontr)
      fix j assume j: "j < length ?new" "is_fs_setup (fst (?new ! j))" "\<not> 3 \<le> j"
      then have "j = 0 \<or> j = 1 \<or> j = 2" by arith
      with j(2) show False unfolding new by auto
    qed
    have c: "take 3 ?new = ?hs" by (simp add: new)
    from a b c show ?goal by blast
  qed
  from WorkerImpl_shape [OF run]
  consider (a) "ctrace s' = ctrace s @ [(Socket, - 1)]"
    | (b) "ctrace s' = ctrace s @ [(Socket, ?fd),
          (Connect ?fd (arg_socket_name arg), ret (step s + 1))]"
    | (c) "ctrace s' = ctrace s @ [(Socket, ?fd), (Connect ?fd (arg_socket_name arg), 0),
          (WriteFd ?fd (take 36 (arg_code_token arg @ mem)) 36, ret (step s + 2))]"
    | (d) fs where "ctrace s' = ctrace s @ ?hs @ fs" "\<forall>c \<in> set fs. is_fs_setup (fst c)"
    | (e) fs where "ctrace s' = ctrace s @ ?hs @ fs @ [(Dup ?fd, - 1)]"
        "\<forall>c \<in> set fs. is_fs_setup (fst c)"
    | (f) fs d r where "ctrace s' = ctrace s @ ?hs @ fs @ [(Dup ?fd, d),
          (Execl (arg_binary_path arg) [arg_binary_path arg, StrCat_int d], r)]"
        "\<forall>c \<in> set fs. is_fs_setup (fst c)"
    by blast
  then show ?thesis
  proof cases
    case a
    show ?thesis by (rule short [of "[(Socket, - 1)]"]) (simp_all add: a)
  next
    case b
    show ?thesis
      by (rule short [of "[(Socket, ?fd), (Connect ?fd (arg_socket_name arg), ret (step s + 1))]"])
        (simp_all add: b)
  next
    case c
    show ?thesis
      by (rule short [of "[(Socket, ?fd), (Connect ?fd (arg_socket_name arg), 0),
          (WriteFd ?fd (take 36 (arg_code_token arg @ mem)) 36, ret (step s + 2))]"])
        (simp_all add: c)
  next
    case d
    show ?thesis
      by (rule long [of fs]) (use d fs_setup_not_handshake in auto)
  next
    case e
    show ?thesis
      by (rule long [of "fs @ [(Dup ?fd, - 1)]"]) (use e fs_setup_not_handshake in auto)
  next
    case f
    show ?thesis
      by (rule long [of "fs @ [(Dup ?fd, d),
          (Execl (arg_binary_path arg) [arg_binary_path arg, StrCat_int d], r)]"])
        (use f fs_setup_not_handshake in auto)
  qed
qed

lemma fs_setup_not_launch: "is_fs_setup c \<Longrightarrow> \<not> is_launch c"
  by (cases c) simp_all

text \<open>
  A list of calls that splits into a part without launch calls and a part without file
  system calls has its launch calls last, and after any call \<open>pv\<close> of the first part.
\<close>

lemma launch_split:
  assumes new: "new = pre @ post"
    and pre: "\<forall>c \<in> set pre. \<not> is_launch (fst c)"
    and post: "\<forall>c \<in> set post. \<not> is_fs_setup (fst c)"
    and pv: "post \<noteq> [] \<longrightarrow> pv \<in> set pre"
  shows "launch_after_setup (map fst new) \<and>
    (\<forall>j. j < length new \<and> is_launch (fst (new ! j)) \<longrightarrow> (\<exists>i<j. new ! i = pv))"
proof -
  have late: "length pre \<le> j" if "j < length new" "is_launch (fst (new ! j))" for j
  proof (rule ccontr)
    assume "\<not> length pre \<le> j"
    then have "j < length pre" by simp
    then have "new ! j \<in> set pre" by (simp add: new nth_append)
    with pre that(2) show False by blast
  qed
  have early: "i < length pre" if "i < length new" "is_fs_setup (fst (new ! i))" for i
  proof (rule ccontr)
    assume "\<not> i < length pre"
    then have "new ! i = post ! (i - length pre)" "i - length pre < length post"
      using that(1) by (auto simp: new nth_append)
    then have "new ! i \<in> set post" by (metis nth_mem)
    with post that(2) show False by blast
  qed
  have "launch_after_setup (map fst new)"
    unfolding launch_after_setup_def
  proof (intro allI impI)
    fix i j
    assume a: "i < length (map fst new) \<and> j < length (map fst new) \<and>
      is_fs_setup (map fst new ! i) \<and> is_launch (map fst new ! j)"
    then have ij: "i < length new" "j < length new" by simp_all
    from a have "is_fs_setup (map fst new ! i)" "is_launch (map fst new ! j)" by blast+
    with ij have "is_fs_setup (fst (new ! i))" "is_launch (fst (new ! j))" by simp_all
    with ij have "i < length new" "j < length new"
      "is_fs_setup (fst (new ! i))" "is_launch (fst (new ! j))"
      by blast+
    then have "i < length pre" "length pre \<le> j" using early [of i] late [of j] by blast+
    then show "i < j" by simp
  qed
  moreover have "\<exists>i<j. new ! i = pv" if "j < length new" "is_launch (fst (new ! j))" for j
  proof -
    from late [OF that] have j: "length pre \<le> j" .
    with that(1) have "post \<noteq> []" by (auto simp: new)
    with pv obtain i where i: "i < length pre" "pre ! i = pv"
      by (auto simp: in_set_conv_nth)
    then have "new ! i = pv" by (simp add: new nth_append)
    with i(1) j show ?thesis by (intro exI [of _ i]) simp
  qed
  ultimately show ?thesis by blast
qed

text \<open>The launch comes last, after a \<^verbatim>\<open>pivot_root\<close> that succeeded, in every run.\<close>

lemma launch_last:
  assumes run: "WorkerImpl ret mem arg s = (s', e)"
  shows "launch_after_setup (map fst (drop (length (ctrace s)) (ctrace s'))) \<and>
    (\<forall>j. j < length (drop (length (ctrace s)) (ctrace s')) \<and>
         is_launch (fst (drop (length (ctrace s)) (ctrace s') ! j)) \<longrightarrow>
       (\<exists>i<j. drop (length (ctrace s)) (ctrace s') ! i =
          (PivotRoot (arg_pivot_root_dir arg) (arg_pivot_root_dir arg @ ''/pivot''), 0)))"
proof -
  let ?fd = "ret (step s)"
  let ?new = "drop (length (ctrace s)) (ctrace s')"
  let ?pv = "(PivotRoot (arg_pivot_root_dir arg) (arg_pivot_root_dir arg @ ''/pivot''), 0::int)"
  let ?hs = "[(Socket, ?fd), (Connect ?fd (arg_socket_name arg), 0),
              (WriteFd ?fd (take 36 (arg_code_token arg @ mem)) 36, 36)]"
  from WorkerImpl_shape [OF run]
  consider (a) "ctrace s' = ctrace s @ [(Socket, - 1)]"
    | (b) "ctrace s' = ctrace s @ [(Socket, ?fd),
          (Connect ?fd (arg_socket_name arg), ret (step s + 1))]"
    | (c) "ctrace s' = ctrace s @ [(Socket, ?fd), (Connect ?fd (arg_socket_name arg), 0),
          (WriteFd ?fd (take 36 (arg_code_token arg @ mem)) 36, ret (step s + 2))]"
    | (d) fs where "ctrace s' = ctrace s @ ?hs @ fs" "\<forall>c \<in> set fs. is_fs_setup (fst c)"
    | (e) fs where "ctrace s' = ctrace s @ ?hs @ fs @ [(Dup ?fd, - 1)]"
        "\<forall>c \<in> set fs. is_fs_setup (fst c)" "?pv \<in> set fs"
    | (f) fs d r where "ctrace s' = ctrace s @ ?hs @ fs @ [(Dup ?fd, d),
          (Execl (arg_binary_path arg) [arg_binary_path arg, StrCat_int d], r)]"
        "\<forall>c \<in> set fs. is_fs_setup (fst c)" "?pv \<in> set fs"
    by blast
  then show ?thesis
  proof cases
    case a
    show ?thesis
      by (rule launch_split [where pre = "[(Socket, - 1)]" and post = "[]"]) (simp_all add: a)
  next
    case b
    show ?thesis
      by (rule launch_split [where pre = "[(Socket, ?fd),
          (Connect ?fd (arg_socket_name arg), ret (step s + 1))]" and post = "[]"])
        (simp_all add: b)
  next
    case c
    show ?thesis
      by (rule launch_split [where pre = "[(Socket, ?fd), (Connect ?fd (arg_socket_name arg), 0),
          (WriteFd ?fd (take 36 (arg_code_token arg @ mem)) 36, ret (step s + 2))]"
          and post = "[]"]) (simp_all add: c)
  next
    case d
    show ?thesis
      by (rule launch_split [where pre = "?hs @ fs" and post = "[]"])
        (use d fs_setup_not_launch in auto)
  next
    case e
    show ?thesis
      by (rule launch_split [where pre = "?hs @ fs" and post = "[(Dup ?fd, - 1)]"])
        (use e fs_setup_not_launch in auto)
  next
    case f
    show ?thesis
      by (rule launch_split [where pre = "?hs @ fs" and post = "[(Dup ?fd, d),
          (Execl (arg_binary_path arg) [arg_binary_path arg, StrCat_int d], r)]"])
        (use f fs_setup_not_launch in auto)
  qed
qed

text \<open>
  C3, as the code has it. In every run of \<^verbatim>\<open>WorkerImpl\<close> the connect to the ControlPlane
  socket and the code-token handshake come before every call of the sandbox's file
  system setup: a call that remounts, binds, creates a directory, pivots the root,
  changes directory or unmounts is made only after \<^verbatim>\<open>socket\<close>, a \<^verbatim>\<open>connect\<close> that
  returned 0 and the 36-byte \<^verbatim>\<open>write\<close> that returned 36, which are the first three
  calls. The UDF is launched after the setup: every call of the file system setup comes
  before the \<^verbatim>\<open>dup\<close> of the socket and the \<^verbatim>\<open>execl\<close>, and these are made only after a
  \<^verbatim>\<open>pivot_root\<close> to the pivot-root directory that returned 0.
\<close>

theorem filesystem_setup_follows_handshake:
  assumes run: "WorkerImpl ret mem arg s = (s', e)"
  shows "setup_after_handshake (map fst (drop (length (ctrace s)) (ctrace s'))) \<and>
    (\<forall>j. j < length (drop (length (ctrace s)) (ctrace s')) \<and>
         is_fs_setup (fst (drop (length (ctrace s)) (ctrace s') ! j)) \<longrightarrow>
       3 \<le> j \<and>
       take 3 (drop (length (ctrace s)) (ctrace s')) =
         [(Socket, ret (step s)),
          (Connect (ret (step s)) (arg_socket_name arg), 0),
          (WriteFd (ret (step s)) (take 36 (arg_code_token arg @ mem)) 36, 36)]) \<and>
    launch_after_setup (map fst (drop (length (ctrace s)) (ctrace s'))) \<and>
    (\<forall>j. j < length (drop (length (ctrace s)) (ctrace s')) \<and>
         is_launch (fst (drop (length (ctrace s)) (ctrace s') ! j)) \<longrightarrow>
       (\<exists>i<j. drop (length (ctrace s)) (ctrace s') ! i =
          (PivotRoot (arg_pivot_root_dir arg) (arg_pivot_root_dir arg @ ''/pivot''), 0)))"
  using handshake_first [OF run] launch_last [OF run] by (intro conjI) blast+

text \<open>
  C3 as stated fails: in the run of the example child, where every call succeeds, the
  handshake does not come after the file system setup. The \<^verbatim>\<open>connect\<close> is call 1 and
  the remount of the root is call 3.
\<close>

theorem handshake_precedes_filesystem_setup:
  "\<not> handshake_after_setup
      (map fst (ctrace (fst (WorkerImpl example_ret [] example_arg \<lparr>step = 0, ctrace = []\<rparr>))))"
proof
  assume "handshake_after_setup
      (map fst (ctrace (fst (WorkerImpl example_ret [] example_arg \<lparr>step = 0, ctrace = []\<rparr>))))"
  then have "(3::nat) < 1"
    unfolding example_child_run handshake_after_setup_def
    by (elim allE [of _ 1] allE [of _ 3]) simp
  then show False by simp
qed

text \<open>
  The theorem at the example child, whose call 13 is the \<^verbatim>\<open>pivot_root\<close> and whose calls
  20 and 21 are the \<^verbatim>\<open>dup\<close> and the \<^verbatim>\<open>execl\<close>.
\<close>

theorem filesystem_setup_follows_handshake_witness:
  "is_fs_setup (fst (ctrace (fst (WorkerImpl example_ret [] example_arg
      \<lparr>step = 0, ctrace = []\<rparr>)) ! 13)) \<and>
   is_launch (fst (ctrace (fst (WorkerImpl example_ret [] example_arg
      \<lparr>step = 0, ctrace = []\<rparr>)) ! 21)) \<and>
   setup_after_handshake (map fst (ctrace (fst (WorkerImpl example_ret [] example_arg
      \<lparr>step = 0, ctrace = []\<rparr>)))) \<and>
   launch_after_setup (map fst (ctrace (fst (WorkerImpl example_ret [] example_arg
      \<lparr>step = 0, ctrace = []\<rparr>)))) \<and>
   take 3 (ctrace (fst (WorkerImpl example_ret [] example_arg \<lparr>step = 0, ctrace = []\<rparr>))) =
     [(Socket, 3), (Connect 3 ''/sockdir/abcd.sock'', 0),
      (WriteFd 3 ''6f1b0c52-7d3e-4a8f-9b21-0c5de47a93f1'' 36, 36)]"
proof -
  have a: "is_fs_setup (fst (ctrace (fst (WorkerImpl example_ret [] example_arg
      \<lparr>step = 0, ctrace = []\<rparr>)) ! 13))"
    "is_launch (fst (ctrace (fst (WorkerImpl example_ret [] example_arg
      \<lparr>step = 0, ctrace = []\<rparr>)) ! 21))"
    by (simp_all add: example_child_run)
  have b: "take 3 (ctrace (fst (WorkerImpl example_ret [] example_arg \<lparr>step = 0, ctrace = []\<rparr>))) =
     [(Socket, 3), (Connect 3 ''/sockdir/abcd.sock'', 0),
      (WriteFd 3 ''6f1b0c52-7d3e-4a8f-9b21-0c5de47a93f1'' 36, 36)]"
    by (simp add: example_child_run)
  from filesystem_setup_follows_handshake [OF example_child_run]
  have "setup_after_handshake (map fst (ctrace (fst (WorkerImpl example_ret [] example_arg
      \<lparr>step = 0, ctrace = []\<rparr>))))"
    "launch_after_setup (map fst (ctrace (fst (WorkerImpl example_ret [] example_arg
      \<lparr>step = 0, ctrace = []\<rparr>))))"
    unfolding example_child_run by simp_all
  with a b show ?thesis by blast
qed

lemma fs_no_exec:
  assumes "\<forall>c \<in> set fs. is_fs_setup (fst c)" and "i < length fs"
  shows "fs ! i \<noteq> (Execl p argv, r)"
proof
  assume "fs ! i = (Execl p argv, r)"
  with assms have "is_fs_setup (Execl p argv)" by (metis fst_conv nth_mem)
  then show False by simp
qed

lemma exec_only_last:
  assumes fs: "\<forall>c \<in> set fs. is_fs_setup (fst c)"
    and tail: "tail = [] \<or> tail = [(Dup fd, d)] \<or> tail = [(Dup fd, d), (Execl p0 a0, r0)]"
  shows "\<forall>i p argv r. i < length (fs @ tail) \<and> (fs @ tail) ! i = (Execl p argv, r) \<longrightarrow>
           Suc i = length (fs @ tail)"
proof (intro allI impI)
  fix i p argv r
  assume a: "i < length (fs @ tail) \<and> (fs @ tail) ! i = (Execl p argv, r)"
  show "Suc i = length (fs @ tail)"
  proof (cases "i < length fs")
    case True
    with a fs_no_exec [OF fs True, of p argv r] show ?thesis by (simp add: nth_append)
  next
    case False
    then have "tail ! (i - length fs) = (Execl p argv, r)" "i - length fs < length tail"
      using a by (auto simp: nth_append)
    with tail False show ?thesis by (auto simp: nth_Cons' split: if_splits)
  qed
qed

lemma rest_no_handshake:
  assumes fs: "\<forall>c \<in> set fs. is_fs_setup (fst c)"
    and tail: "tail = [] \<or> tail = [(Dup fd, d)] \<or> tail = [(Dup fd, d), (Execl p0 a0, r0)]"
  shows "\<forall>c \<in> set (fs @ tail). \<not> is_handshake (fst c)"
  using assms fs_setup_not_handshake by auto

text \<open>
  C6. For a code token of 36 bytes and a child whose \<^verbatim>\<open>socket\<close> and \<^verbatim>\<open>connect\<close>
  succeed, the call right after the \<^verbatim>\<open>connect\<close> is the \<^verbatim>\<open>write\<close> of exactly the 36
  bytes of the code token on the connected socket. No later call of the child is a
  \<^verbatim>\<open>connect\<close> or a \<^verbatim>\<open>write\<close>; when the \<^verbatim>\<open>write\<close> does not return 36 the child aborts
  at once; and the binary, which exchanges the framed messages, is started by the
  child's last call only.
\<close>

theorem handshake_is_the_code_token:
  assumes len: "length (arg_code_token arg) = 36"
    and run: "WorkerImpl ret mem arg s = (s', e)"
    and sock: "ret (step s) \<noteq> - 1"
    and conn: "ret (step s + 1) = 0"
  shows "\<exists>rest. drop (length (ctrace s)) (ctrace s') =
             (Socket, ret (step s)) # (Connect (ret (step s)) (arg_socket_name arg), 0) #
             (WriteFd (ret (step s)) (arg_code_token arg) 36, ret (step s + 2)) # rest \<and>
           (\<forall>c \<in> set rest. \<not> is_handshake (fst c)) \<and>
           (ret (step s + 2) \<noteq> 36 \<longrightarrow> rest = [] \<and> e = Aborted) \<and>
           (\<forall>i p argv r. i < length rest \<and> rest ! i = (Execl p argv, r) \<longrightarrow> Suc i = length rest)"
proof -
  let ?fd = "ret (step s)"
  let ?new = "drop (length (ctrace s)) (ctrace s')"
  have tok: "take 36 (arg_code_token arg @ mem) = arg_code_token arg" using len by simp
  let ?hs = "[(Socket, ?fd), (Connect ?fd (arg_socket_name arg), 0),
              (WriteFd ?fd (arg_code_token arg) 36, 36)]"
  from WorkerImpl_shape [OF run] sock conn
  consider (c) "ret (step s + 2) \<noteq> 36" "e = Aborted"
        "ctrace s' = ctrace s @ [(Socket, ?fd), (Connect ?fd (arg_socket_name arg), 0),
          (WriteFd ?fd (arg_code_token arg) 36, ret (step s + 2))]"
    | (d) fs where "ctrace s' = ctrace s @ ?hs @ fs" "\<forall>c \<in> set fs. is_fs_setup (fst c)"
        "ret (step s + 2) = 36"
    | (e) fs where "ctrace s' = ctrace s @ ?hs @ fs @ [(Dup ?fd, - 1)]"
        "\<forall>c \<in> set fs. is_fs_setup (fst c)" "ret (step s + 2) = 36"
    | (f) fs d r where "ctrace s' = ctrace s @ ?hs @ fs @ [(Dup ?fd, d),
          (Execl (arg_binary_path arg) [arg_binary_path arg, StrCat_int d], r)]"
        "\<forall>c \<in> set fs. is_fs_setup (fst c)" "ret (step s + 2) = 36"
    unfolding tok by blast
  then show ?thesis
  proof cases
    case c
    then show ?thesis by simp
  next
    case d
    from exec_only_last [OF d(2), of "[]"] rest_no_handshake [OF d(2), of "[]"] d(1) d(3)
    show ?thesis by (intro exI [of _ fs]) simp
  next
    case e
    from exec_only_last [OF e(2), of "[(Dup ?fd, - 1)]" ?fd "- 1"]
      rest_no_handshake [OF e(2), of "[(Dup ?fd, - 1)]" ?fd "- 1"] e(1) e(3)
    show ?thesis by (intro exI [of _ "fs @ [(Dup ?fd, - 1)]"]) simp
  next
    case f
    let ?tail = "[(Dup ?fd, d),
          (Execl (arg_binary_path arg) [arg_binary_path arg, StrCat_int d], r)]"
    from exec_only_last [OF f(2), of ?tail ?fd d "arg_binary_path arg"
        "[arg_binary_path arg, StrCat_int d]" r]
      rest_no_handshake [OF f(2), of ?tail ?fd d "arg_binary_path arg"
        "[arg_binary_path arg, StrCat_int d]" r] f(1) f(3)
    show ?thesis by (intro exI [of _ "fs @ ?tail"]) simp
  qed
qed

text \<open>
  C7. Whenever \<^verbatim>\<open>WorkerImpl\<close> starts the binary, \<^verbatim>\<open>argv[1]\<close> is the decimal string of
  the descriptor that \<^verbatim>\<open>dup\<close> returned for the socket the child opened (and connected),
  and \<^verbatim>\<open>argv[0]\<close> is the binary's path. Run with this \<^verbatim>\<open>argv\<close>, the sample UDF parses
  that integer back and both reads its request from and writes its response to this
  descriptor (for a descriptor in the range of a C \<^verbatim>\<open>int\<close>).
\<close>

theorem udf_runs_on_duplicated_descriptor:
  assumes run: "WorkerImpl ret mem arg s = (s', Execed p argv)"
  shows "\<exists>d. hd (drop (length (ctrace s)) (ctrace s')) = (Socket, ret (step s)) \<and>
           (Dup (ret (step s)), d) \<in> set (drop (length (ctrace s)) (ctrace s')) \<and>
           last (drop (length (ctrace s)) (ctrace s')) = (Execl p argv, 0) \<and>
           p = arg_binary_path arg \<and>
           argv = [arg_binary_path arg, StrCat_int d] \<and>
           (- (2 ^ 31) \<le> d \<and> d < 2 ^ 31 \<longrightarrow>
              udf_main argv = ([ReadRequestFromFd d, WriteResponseToFd d], Some 0))"
proof -
  let ?fd = "ret (step s)"
  let ?hs = "[(Socket, ?fd), (Connect ?fd (arg_socket_name arg), 0),
              (WriteFd ?fd (take 36 (arg_code_token arg @ mem)) 36, 36)]"
  from WorkerImpl_shape [OF run]
  obtain fs d r where f: "ctrace s' = ctrace s @ ?hs @ fs @ [(Dup ?fd, d),
          (Execl (arg_binary_path arg) [arg_binary_path arg, StrCat_int d], r)]"
      "Execed p argv = (if r = 0
         then Execed (arg_binary_path arg) [arg_binary_path arg, StrCat_int d] else Aborted)"
    by auto
  from f(2) have r: "r = 0" and p: "p = arg_binary_path arg"
    and argv: "argv = [arg_binary_path arg, StrCat_int d]"
    by (auto split: if_splits)
  have udf: "- (2 ^ 31) \<le> d \<and> d < 2 ^ 31 \<longrightarrow>
      udf_main argv = ([ReadRequestFromFd d, WriteResponseToFd d], Some 0)"
    by (simp add: udf_main_def argv stoi_StrCat_int)
  show ?thesis
    by (rule exI [of _ d]) (use f(1) r p argv udf in simp)
qed

text \<open>The two theorems at the example child.\<close>

theorem udf_runs_on_duplicated_descriptor_witness:
  "WorkerImpl example_ret [] example_arg \<lparr>step = 0, ctrace = []\<rparr> =
     (fst (WorkerImpl example_ret [] example_arg \<lparr>step = 0, ctrace = []\<rparr>),
      Execed ''/tmp/progdir/udf'' [''/tmp/progdir/udf'', ''4'']) \<and>
   (Dup 3, 4) \<in> set (ctrace (fst (WorkerImpl example_ret [] example_arg
      \<lparr>step = 0, ctrace = []\<rparr>))) \<and>
   udf_main [''/tmp/progdir/udf'', ''4''] = ([ReadRequestFromFd 4, WriteResponseToFd 4], Some 0)"
proof -
  have run: "WorkerImpl example_ret [] example_arg \<lparr>step = 0, ctrace = []\<rparr> =
     (fst (WorkerImpl example_ret [] example_arg \<lparr>step = 0, ctrace = []\<rparr>),
      Execed ''/tmp/progdir/udf'' [''/tmp/progdir/udf'', ''4''])"
    by (simp add: example_child_run)
  from udf_runs_on_duplicated_descriptor [OF run]
  obtain d where d: "[''/tmp/progdir/udf'', ''4''] = [arg_binary_path example_arg, StrCat_int d]"
    "- (2 ^ 31) \<le> d \<and> d < 2 ^ 31 \<longrightarrow>
       udf_main [''/tmp/progdir/udf'', ''4''] = ([ReadRequestFromFd d, WriteResponseToFd d], Some 0)"
    "(Dup (example_ret (step \<lparr>step = 0, ctrace = []\<rparr>)), d) \<in> set (drop
       (length (ctrace \<lparr>step = 0, ctrace = []\<rparr>))
       (ctrace (fst (WorkerImpl example_ret [] example_arg \<lparr>step = 0, ctrace = []\<rparr>))))"
    by blast
  from d(3) have "d = 4" by (simp add: example_child_run example_ret_def)
  with d(2) d(3) run show ?thesis by (simp add: example_ret_def)
qed

theorem handshake_is_the_code_token_witness:
  "length (arg_code_token example_arg) = 36 \<and>
   example_ret (step \<lparr>step = 0, ctrace = []\<rparr>) \<noteq> - 1 \<and>
   example_ret (step \<lparr>step = 0, ctrace = []\<rparr> + 1) = 0 \<and>
   (\<exists>rest. ctrace (fst (WorkerImpl example_ret [] example_arg \<lparr>step = 0, ctrace = []\<rparr>)) =
      (Socket, 3) # (Connect 3 ''/sockdir/abcd.sock'', 0) #
      (WriteFd 3 ''6f1b0c52-7d3e-4a8f-9b21-0c5de47a93f1'' 36, 36) # rest)"
proof -
  have len: "length (arg_code_token example_arg) = 36"
    by (simp add: example_arg_def example_token_def)
  have run: "WorkerImpl example_ret [] example_arg \<lparr>step = 0, ctrace = []\<rparr> =
     (fst (WorkerImpl example_ret [] example_arg \<lparr>step = 0, ctrace = []\<rparr>),
      Execed ''/tmp/progdir/udf'' [''/tmp/progdir/udf'', ''4''])"
    by (simp add: example_child_run)
  have sock: "example_ret (step \<lparr>step = 0, ctrace = []\<rparr>) \<noteq> - 1"
    by (simp add: example_ret_def)
  have conn: "example_ret (step \<lparr>step = 0, ctrace = []\<rparr> + 1) = 0"
    by (simp add: example_ret_def)
  from handshake_is_the_code_token [OF len run sock conn]
  have "\<exists>rest. ctrace (fst (WorkerImpl example_ret [] example_arg \<lparr>step = 0, ctrace = []\<rparr>)) =
      (Socket, 3) # (Connect 3 ''/sockdir/abcd.sock'', 0) #
      (WriteFd 3 ''6f1b0c52-7d3e-4a8f-9b21-0c5de47a93f1'' 36, 36) # rest"
    by (auto simp: example_ret_def example_arg_def example_token_def)
  with len sock conn show ?thesis by blast
qed



subsection \<open>Framed messages\<close>

lemma ReadVarint32_WriteVarint32: "ReadVarint32 (WriteVarint32 n @ rest) = Some (n, rest)"
proof (induction n rule: WriteVarint32.induct)
  case (1 n)
  show ?case
  proof (cases "n < 128")
    case True
    then show ?thesis by (simp add: WriteVarint32.simps [of n])
  next
    case False
    have "(128 + n mod 128) mod 256 = 128 + n mod 128"
      by (rule mod_less) (simp add: add.commute less_le_trans [OF add_strict_left_mono [OF mod_less_divisor]])
    with False "1.IH" show ?thesis
      by (simp add: WriteVarint32.simps [of n])
  qed
qed

lemma length_WriteVarint32_pos: "1 \<le> length (WriteVarint32 n)"
  by (simp add: WriteVarint32.simps [of n])

lemma length_WriteVarint32_le: "n < 128 ^ Suc k \<Longrightarrow> length (WriteVarint32 n) \<le> Suc k"
proof (induction k arbitrary: n)
  case 0
  then show ?case by (simp add: WriteVarint32.simps [of n])
next
  case (Suc k)
  show ?case
  proof (cases "n < 128")
    case True
    then show ?thesis by (simp add: WriteVarint32.simps [of n])
  next
    case False
    from Suc.prems have "n div 128 < 128 ^ Suc k"
      by (simp add: less_mult_imp_div_less mult.commute)
    from Suc.IH [OF this] False show ?thesis
      by (simp add: WriteVarint32.simps [of n])
  qed
qed

text \<open>
  C2, as the framing routines have it. A framed message is the varint of its payload's
  length \<open>N\<close> followed by exactly the \<open>N\<close> payload bytes: the prefix has at least one
  byte, at most five for a payload shorter than \<open>2 ^ 31\<close> bytes, and is the single byte
  \<open>N\<close> for a payload shorter than 128 bytes; reading the varint gives \<open>N\<close> back, and
  parsing a frame gives back the payload and leaves what follows it.
\<close>

theorem delimited_frame_is_varint_then_payload:
  "SerializeDelimitedToFileDescriptor payload = WriteVarint32 (length payload) @ payload \<and>
   1 \<le> length (WriteVarint32 (length payload)) \<and>
   (length payload < 2 ^ 31 \<longrightarrow> length (WriteVarint32 (length payload)) \<le> 5) \<and>
   (length payload < 128 \<longrightarrow> WriteVarint32 (length payload) = [char_of (length payload)]) \<and>
   ReadVarint32 (WriteVarint32 (length payload) @ rest) = Some (length payload, rest) \<and>
   ParseDelimitedFromZeroCopyStream (SerializeDelimitedToFileDescriptor payload @ rest) =
     Some (payload, rest)"
proof -
  have five: "length payload < 2 ^ 31 \<longrightarrow> length (WriteVarint32 (length payload)) \<le> 5"
  proof
    assume "length payload < 2 ^ 31"
    then have "length payload < 128 ^ Suc 4" by simp
    from length_WriteVarint32_le [OF this] show "length (WriteVarint32 (length payload)) \<le> 5"
      by simp
  qed
  have one: "length payload < 128 \<longrightarrow> WriteVarint32 (length payload) = [char_of (length payload)]"
    by (simp add: WriteVarint32.simps [of "length payload"])
  have parse: "ParseDelimitedFromZeroCopyStream (SerializeDelimitedToFileDescriptor payload @ rest) =
     Some (payload, rest)"
    by (simp add: ParseDelimitedFromZeroCopyStream_def SerializeDelimitedToFileDescriptor_def
        ReadVarint32_WriteVarint32)
  show ?thesis
    using five one parse length_WriteVarint32_pos [of "length payload"]
    by (simp add: SerializeDelimitedToFileDescriptor_def ReadVarint32_WriteVarint32)
qed

text \<open>
  C2 as stated fails: the frame of the 13-byte payload \<open>Hello, world!\<close> is not an
  eight-byte little-endian length followed by the payload. It has 14 bytes, not 21.
\<close>

theorem delimited_frame_is_not_le64:
  "SerializeDelimitedToFileDescriptor ''Hello, world!'' \<noteq> frame_le64 ''Hello, world!''"
proof
  assume eq: "SerializeDelimitedToFileDescriptor ''Hello, world!'' = frame_le64 ''Hello, world!''"
  have w: "length (WriteVarint32 13) = 1" by (simp add: WriteVarint32.simps [of 13])
  have l: "length ''Hello, world!'' = 13" by simp
  have "length (SerializeDelimitedToFileDescriptor ''Hello, world!'') = 14"
    unfolding SerializeDelimitedToFileDescriptor_def l by (simp add: w)
  moreover have "length (frame_le64 ''Hello, world!'') = 21"
    unfolding frame_le64_def l by (simp add: le64_def)
  ultimately show False using eq by simp
qed

text \<open>The theorem at that payload, followed by more bytes.\<close>

theorem delimited_frame_is_varint_then_payload_witness:
  "length ''Hello, world!'' < (128::nat) \<and>
   length (SerializeDelimitedToFileDescriptor ''Hello, world!'') = 14 \<and>
   hd (SerializeDelimitedToFileDescriptor ''Hello, world!'') = char_of (13::nat) \<and>
   ParseDelimitedFromZeroCopyStream (SerializeDelimitedToFileDescriptor ''Hello, world!'' @ ''next'') =
     Some (''Hello, world!'', ''next'')"
proof -
  have a: "length ''Hello, world!'' < (128::nat)" by simp
  from delimited_frame_is_varint_then_payload [of "''Hello, world!''" "''next''"] a
  have b: "SerializeDelimitedToFileDescriptor ''Hello, world!'' =
      WriteVarint32 (length ''Hello, world!'') @ ''Hello, world!''"
    and c: "WriteVarint32 (length ''Hello, world!'') = [char_of (length ''Hello, world!'')]"
    and d: "ParseDelimitedFromZeroCopyStream
       (SerializeDelimitedToFileDescriptor ''Hello, world!'' @ ''next'') =
     Some (''Hello, world!'', ''next'')"
    by blast+
  from b c have "length (SerializeDelimitedToFileDescriptor ''Hello, world!'') = 14"
    "hd (SerializeDelimitedToFileDescriptor ''Hello, world!'') = char_of (13::nat)"
    by simp_all
  with a d show ?thesis by blast
qed

subsection \<open>The sieve\<close>

lemma sqrt_test: "real i \<le> sqrt (real n) \<longleftrightarrow> i * i \<le> n"
proof
  assume le: "real i \<le> sqrt (real n)"
  have "real i * real i \<le> sqrt (real n) * sqrt (real n)"
    using le by (intro mult_mono) simp_all
  then have "real (i * i) \<le> real n" by simp
  then show "i * i \<le> n" by (simp only: of_nat_le_iff)
next
  assume "i * i \<le> n"
  then have "real (i * i) \<le> real n" by (simp only: of_nat_le_iff)
  then have "(real i)\<^sup>2 \<le> real n" by (simp add: power2_eq_square)
  then show "real i \<le> sqrt (real n)" by (rule real_le_rsqrt)
qed

lemma mark_multiples_length: "length (mark_multiples n i j a) = length a"
proof (induction n i j a rule: mark_multiples.induct)
  case (1 n i j a)
  then show ?case by (simp add: mark_multiples.simps [of n i j a])
qed

lemma dvd_shift:
  assumes "j + i \<le> (k::nat)"
  shows "i dvd (k - (j + i)) \<longleftrightarrow> i dvd (k - j)"
proof -
  have "k - j = (k - (j + i)) + i" using assms by simp
  then show ?thesis by (metis dvd_add_triv_right_iff)
qed

lemma mark_multiples_nth:
  assumes "0 < i" and "n < length a" and "k < length a"
  shows "mark_multiples n i j a ! k \<longleftrightarrow> a ! k \<and> \<not> (j \<le> k \<and> k \<le> n \<and> i dvd (k - j))"
  using assms
proof (induction n i j a rule: mark_multiples.induct)
  case (1 n i j a)
  show ?case
  proof (cases "j \<le> n")
    case False
    then show ?thesis by (simp add: mark_multiples.simps [of n i j a])
  next
    case True
    then have jl: "j < length a" using "1.prems" by simp
    have step: "mark_multiples n i j a = mark_multiples n i (j + i) (a[j := False])"
      using True "1.prems"(1) by (simp add: mark_multiples.simps [of n i j a])
    have ih: "mark_multiples n i (j + i) (a[j := False]) ! k \<longleftrightarrow>
        a[j := False] ! k \<and> \<not> (j + i \<le> k \<and> k \<le> n \<and> i dvd (k - (j + i)))"
      using "1.IH" True "1.prems" by simp
    have upd: "a[j := False] ! k \<longleftrightarrow> k \<noteq> j \<and> a ! k"
      using jl "1.prems"(3) by (auto simp: nth_list_update)
    show ?thesis
    proof (cases "j + i \<le> k")
      case True
      then have "k \<noteq> j" using "1.prems"(1) by simp
      with True dvd_shift [OF True] show ?thesis
        unfolding step ih upd by auto
    next
      case far: False
      show ?thesis
      proof (cases "k = j")
        case True
        then show ?thesis unfolding step ih upd using \<open>j \<le> n\<close> by simp
      next
        case False
        have "\<not> (j \<le> k \<and> i dvd (k - j))"
        proof
          assume a: "j \<le> k \<and> i dvd (k - j)"
          then have "j \<le> k" by simp
          then have "0 < k - j" "k - j < i" using False far by arith+
          with a show False by (meson dvd_imp_le not_less)
        qed
        with far False show ?thesis unfolding step ih upd by auto
      qed
    qed
  qed
qed

lemma mark_squares_nth:
  assumes "0 < i" and "n < length a" and "k < length a"
  shows "mark_multiples n i (i * i) a ! k \<longleftrightarrow> a ! k \<and> \<not> (i * i \<le> k \<and> k \<le> n \<and> i dvd k)"
proof -
  have "i * i \<le> k \<Longrightarrow> i dvd (k - i * i) \<longleftrightarrow> i dvd k"
    by (metis dvd_diffD dvd_diff_nat dvd_triv_left)
  with mark_multiples_nth [OF assms, of "i * i"] show ?thesis by blast
qed

lemma unmarked_Suc:
  "unmarked (Suc i) k \<longleftrightarrow> unmarked i k \<and> \<not> (2 \<le> i \<and> i * i \<le> k \<and> i dvd k)"
  by (auto simp: unmarked_def less_Suc_eq)

lemma sieve_loop_length: "length (sieve_loop n i a) = length a"
proof (induction n i a rule: sieve_loop.induct)
  case (1 n i a)
  then show ?case
    by (simp add: sieve_loop.simps [of n i a] mark_multiples_length)
qed

lemma sieve_loop_nth:
  assumes "length a = n + 1" and "2 \<le> i" and "\<forall>k \<le> n. a ! k = unmarked i k" and "k \<le> n"
  shows "sieve_loop n i a ! k \<longleftrightarrow> 2 \<le> k \<and> (\<nexists>d. 2 \<le> d \<and> d * d \<le> k \<and> d dvd k)"
  using assms
proof (induction n i a rule: sieve_loop.induct)
  case (1 n i a)
  show ?case
  proof (cases "i * i \<le> n")
    case False
    then have "sieve_loop n i a = a"
      by (simp add: sieve_loop.simps [of n i a] sqrt_test)
    moreover have "\<And>d. d * d \<le> k \<Longrightarrow> d < i"
    proof (rule ccontr)
      fix d assume "d * d \<le> k" "\<not> d < i"
      then have "i * i \<le> d * d" by (simp add: mult_le_mono)
      with \<open>d * d \<le> k\<close> \<open>k \<le> n\<close> False show False by simp
    qed
    ultimately show ?thesis
      using "1.prems"(3) "1.prems"(4) by (auto simp: unmarked_def)
  next
    case True
    define a' where "a' = (if a ! i then mark_multiples n i (i * i) a else a)"
    have step: "sieve_loop n i a = sieve_loop n (i + 1) a'"
      using True by (simp add: sieve_loop.simps [of n i a] sqrt_test a'_def)
    have len: "length a' = n + 1"
      using "1.prems"(1) by (simp add: a'_def mark_multiples_length)
    have i_le: "i \<le> n"
      using True "1.prems"(2) by (metis le_trans le_square)
    have inv: "\<forall>k \<le> n. a' ! k = unmarked (i + 1) k"
    proof (intro allI impI)
      fix k assume k: "k \<le> n"
      show "a' ! k = unmarked (i + 1) k"
      proof (cases "a ! i")
        case True
        then have "a' ! k \<longleftrightarrow> a ! k \<and> \<not> (i * i \<le> k \<and> k \<le> n \<and> i dvd k)"
          using mark_squares_nth [of i n a k] "1.prems"(1) "1.prems"(2) k by (simp add: a'_def)
        with k "1.prems"(2) "1.prems"(3) show ?thesis by (auto simp: unmarked_Suc)
      next
        case False
        then have "\<not> unmarked i i" using "1.prems"(3) i_le by simp
        then obtain d where d: "2 \<le> d" "d < i" "d * d \<le> i" "d dvd i"
          using "1.prems"(2) by (auto simp: unmarked_def)
        have "\<not> (unmarked i k \<and> i * i \<le> k \<and> i dvd k)"
        proof
          assume u: "unmarked i k \<and> i * i \<le> k \<and> i dvd k"
          have "d dvd k" using d(4) u by (meson dvd_trans)
          moreover have "d * d \<le> k"
            using d(3) u by (meson le_square le_trans)
          ultimately show False using u d(1) d(2) by (auto simp: unmarked_def)
        qed
        with False k "1.prems"(3) show ?thesis by (auto simp: a'_def unmarked_Suc)
      qed
    qed
    have "sieve_loop n (i + 1) a' ! k \<longleftrightarrow> 2 \<le> k \<and> (\<nexists>d. 2 \<le> d \<and> d * d \<le> k \<and> d dvd k)"
      unfolding a'_def
    proof (rule "1.IH")
      show "real i \<le> sqrt (real n)" using True by (simp add: sqrt_test)
      show "length (if a ! i then mark_multiples n i (i * i) a else a) = n + 1"
        using len by (simp add: a'_def)
      show "2 \<le> i + 1" using "1.prems"(2) by simp
      show "\<forall>k\<le>n. (if a ! i then mark_multiples n i (i * i) a else a) ! k = unmarked (i + 1) k"
        using inv by (simp add: a'_def)
      show "k \<le> n" by (rule "1.prems"(4))
    qed
    then show ?thesis unfolding step .
  qed
qed

lemma is_prime_iff_no_small_divisor:
  "is_prime k \<longleftrightarrow> 2 \<le> k \<and> (\<nexists>d. 2 \<le> d \<and> d * d \<le> k \<and> d dvd k)"
proof
  assume p: "is_prime k"
  have "\<not> (2 \<le> d \<and> d * d \<le> k \<and> d dvd k)" for d
  proof
    assume d: "2 \<le> d \<and> d * d \<le> k \<and> d dvd k"
    then have "d * 2 \<le> d * d" by simp
    moreover have "d < d * 2" using d by simp
    ultimately have "d < k" using d by linarith
    with d p show False by (auto simp: is_prime_def)
  qed
  with p show "2 \<le> k \<and> (\<nexists>d. 2 \<le> d \<and> d * d \<le> k \<and> d dvd k)"
    by (auto simp: is_prime_def)
next
  assume a: "2 \<le> k \<and> (\<nexists>d. 2 \<le> d \<and> d * d \<le> k \<and> d dvd k)"
  have "\<not> (1 < d \<and> d < k \<and> d dvd k)" for d
  proof
    assume d: "1 < d \<and> d < k \<and> d dvd k"
    then obtain e where e: "k = d * e" by (auto simp: dvd_def)
    with d have e1: "1 < e" by (cases e) (auto simp: Suc_lessI)
    show False
    proof (cases "d \<le> e")
      case True
      then have "d * d \<le> k" using e by simp
      with d a show False by auto
    next
      case False
      then have "e * e \<le> k" using e by (simp add: mult.commute)
      moreover have "e dvd k" using e by simp
      ultimately show False using e1 a by auto
    qed
  qed
  with a show "is_prime k" by (auto simp: is_prime_def)
qed

lemma prime_sieve_correct: "prime_sieve n = [k \<leftarrow> [2..<n + 1]. is_prime k]"
proof -
  define a0 where "a0 = (replicate (n + 1) True)[0 := False, 1 := False]"
  have len: "length a0 = n + 1" by (simp add: a0_def)
  have "a0 ! k \<longleftrightarrow> k \<noteq> 0 \<and> k \<noteq> 1" if "k \<le> n" for k
  proof (cases "k = 0 \<or> k = 1")
    case True
    then have "(replicate (n + 1) True)[0 := False, 1 := False] ! k = False"
      using that by (auto simp add: nth_list_update simp del: replicate.simps)
    with True show ?thesis by (simp add: a0_def)
  next
    case False
    then have "(replicate (n + 1) True)[0 := False, 1 := False] ! k =
        replicate (n + 1) True ! k" by simp
    with False that show ?thesis by (simp add: a0_def del: replicate.simps)
  qed
  then have init: "\<forall>k \<le> n. a0 ! k = unmarked 2 k"
    by (auto simp: unmarked_def)
  have "sieve_loop n 2 a0 ! k = is_prime k" if "k \<in> set [2..<n + 1]" for k
  proof -
    from that have "k \<le> n" by auto
    from sieve_loop_nth [OF len order_refl init this] show ?thesis
      by (simp only: is_prime_iff_no_small_divisor)
  qed
  then have "[k \<leftarrow> [2..<n + 1]. sieve_loop n 2 a0 ! k] = [k \<leftarrow> [2..<n + 1]. is_prime k]"
    by (intro filter_cong refl)
  then show ?thesis by (simp add: prime_sieve_def a0_def Let_def)
qed

subsection \<open>Primes\<close>

lemma is_prime_gt1: "is_prime p \<Longrightarrow> 1 < p"
  by (simp add: is_prime_def)

lemma is_prime_divisors:
  assumes "is_prime p" and "c dvd p"
  shows "c = 1 \<or> c = p"
proof -
  have "0 < p" using assms(1) by (simp add: is_prime_def)
  with assms(2) have "c \<le> p" "0 < c" by (auto dest: dvd_imp_le intro: Nat.gr0I)
  show ?thesis
  proof (rule ccontr)
    assume "\<not> (c = 1 \<or> c = p)"
    with \<open>c \<le> p\<close> \<open>0 < c\<close> have "1 < c \<and> c < p" by arith
    with assms show False by (auto simp: is_prime_def)
  qed
qed

lemma prime_divisor_exists: "2 \<le> n \<Longrightarrow> \<exists>p. is_prime p \<and> p dvd n"
proof (induction n rule: less_induct)
  case (less n)
  show ?case
  proof (cases "is_prime n")
    case True
    then show ?thesis by auto
  next
    case False
    with less.prems obtain d where d: "1 < d" "d < n" "d dvd n"
      by (auto simp: is_prime_def)
    with less.IH [of d] obtain p where "is_prime p" "p dvd d" by auto
    with d(3) show ?thesis by (meson dvd_trans)
  qed
qed

lemma primes_coprime:
  assumes "is_prime p" and "is_prime q" and "p \<noteq> q"
  shows "coprime p q"
proof (rule coprimeI)
  fix c assume "c dvd p" "c dvd q"
  with is_prime_divisors [OF assms(1)] is_prime_divisors [OF assms(2)] assms(3)
  show "is_unit c" by auto
qed

lemma no_divisor_iff: "no_divisor ps k \<longleftrightarrow> (\<forall>p \<in> set ps. \<not> p dvd k)"
  by (induction ps) auto

text \<open>Knowing the primes up to \<open>r\<close> decides primality below \<open>(r + 1)\<^sup>2\<close>.\<close>

lemma is_prime_by_small_primes:
  assumes ps: "set ps = {p. is_prime p \<and> p \<le> r}"
    and n: "k < (r + 1) * (r + 1)"
    and k: "2 \<le> k"
  shows "is_prime k \<longleftrightarrow> k \<in> set ps \<or> no_divisor ps k"
proof
  assume p: "is_prime k"
  show "k \<in> set ps \<or> no_divisor ps k"
  proof (cases "k \<in> set ps")
    case False
    have "\<not> q dvd k" if "q \<in> set ps" for q
    proof
      assume "q dvd k"
      with is_prime_divisors [OF p] have "q = 1 \<or> q = k" by simp
      moreover have "1 < q" using that ps by (simp add: is_prime_def)
      ultimately show False using that False by auto
    qed
    then show ?thesis by (simp add: no_divisor_iff)
  qed simp
next
  assume a: "k \<in> set ps \<or> no_divisor ps k"
  show "is_prime k"
  proof (cases "k \<in> set ps")
    case True
    with ps show ?thesis by simp
  next
    case False
    with a have nd: "\<forall>p \<in> set ps. \<not> p dvd k" by (simp add: no_divisor_iff)
    show ?thesis
    proof (rule ccontr)
      assume "\<not> is_prime k"
      with k obtain d where d: "2 \<le> d" "d * d \<le> k" "d dvd k"
        by (auto simp: is_prime_iff_no_small_divisor)
      from prime_divisor_exists [OF d(1)] obtain p where p: "is_prime p" "p dvd d" by blast
      have "p \<le> d" by (rule dvd_imp_le) (use p(2) d(1) in auto)
      then have "p * p \<le> d * d" by (simp add: mult_le_mono)
      with d(2) n have "p * p < (r + 1) * (r + 1)" by simp
      then have "p < r + 1"
        by (metis mult_le_mono not_less)
      with p(1) ps have "p \<in> set ps" by simp
      moreover have "p dvd k" using p(2) d(3) by (rule dvd_trans)
      ultimately show False using nd by blast
    qed
  qed
qed

lemma sifted_primes:
  assumes "set ps = {p. is_prime p \<and> p \<le> r}" and "n < (r + 1) * (r + 1)"
  shows "sifted ps n = [k \<leftarrow> [2..<n + 1]. is_prime k]"
  unfolding sifted_def
proof (rule filter_cong [OF refl])
  fix k assume "k \<in> set [2..<n + 1]"
  then have "2 \<le> k" "k < (r + 1) * (r + 1)" using assms(2) by auto
  from is_prime_by_small_primes [OF assms(1) this(2) this(1)]
  show "(k \<in> set ps \<or> no_divisor ps k) = is_prime k" by simp
qed

lemma primes_upto_set:
  "set [k \<leftarrow> [2..<n + 1]. is_prime k] = {p. is_prime p \<and> p \<le> n}"
  by (auto simp: is_prime_def)

subsection \<open>Counting\<close>

lemma finite_coprime_upto: "finite (coprime_upto x ps)"
proof (rule finite_subset)
  show "coprime_upto x ps \<subseteq> {..x}" by (auto simp: coprime_upto_def)
qed simp

lemma phi_0: "phi 0 ps = 0"
  by (induction ps) auto

lemma coprime_upto_multiples:
  assumes p: "is_prime p" and ps: "\<forall>q \<in> set ps. is_prime q \<and> q \<noteq> p"
  shows "{k \<in> coprime_upto x ps. p dvd k} = (\<lambda>m. p * m) ` coprime_upto (x div p) ps"
proof (intro set_eqI iffI)
  fix k assume "k \<in> {k \<in> coprime_upto x ps. p dvd k}"
  then have k: "1 \<le> k" "k \<le> x" "\<forall>q \<in> set ps. \<not> q dvd k" "p dvd k"
    by (auto simp: coprime_upto_def)
  from k(4) obtain m where m: "k = p * m" by (auto simp: dvd_def)
  have p0: "0 < p" using p by (simp add: is_prime_def)
  have "1 \<le> m" using k(1) m by (cases m) auto
  moreover have "m \<le> x div p"
    using k(2) m p0 by (simp add: less_eq_div_iff_mult_less_eq mult.commute)
  moreover have "\<forall>q \<in> set ps. \<not> q dvd m" using k(3) m by auto
  ultimately have "m \<in> coprime_upto (x div p) ps" by (simp add: coprime_upto_def)
  with m show "k \<in> (\<lambda>m. p * m) ` coprime_upto (x div p) ps" by blast
next
  fix k assume "k \<in> (\<lambda>m. p * m) ` coprime_upto (x div p) ps"
  then obtain m where m: "k = p * m" "1 \<le> m" "m \<le> x div p" "\<forall>q \<in> set ps. \<not> q dvd m"
    by (auto simp: coprime_upto_def)
  have p0: "0 < p" using p by (simp add: is_prime_def)
  have "1 \<le> k" using m(1) m(2) p0 by (cases m) auto
  moreover have "k \<le> x"
    using m(1) m(3) p0 by (simp add: less_eq_div_iff_mult_less_eq mult.commute)
  moreover have "\<not> q dvd k" if "q \<in> set ps" for q
  proof -
    from that ps have "coprime q p" by (intro primes_coprime) (use p in auto)
    then have "q dvd p * m \<longleftrightarrow> q dvd m" by (rule coprime_dvd_mult_right_iff)
    with m(1) m(4) that show ?thesis by simp
  qed
  ultimately show "k \<in> {k \<in> coprime_upto x ps. p dvd k}"
    by (simp add: coprime_upto_def m(1))
qed

lemma phi_card:
  assumes "\<forall>p \<in> set ps. is_prime p" and "distinct ps"
  shows "phi x ps = card (coprime_upto x ps)"
  using assms
proof (induction ps arbitrary: x)
  case Nil
  have "coprime_upto x [] = {1..x}" by (auto simp: coprime_upto_def)
  then show ?case by simp
next
  case (Cons p ps)
  have p: "is_prime p" and ps: "\<forall>q \<in> set ps. is_prime q \<and> q \<noteq> p"
    using Cons.prems by auto
  have ih: "\<And>y. phi y ps = card (coprime_upto y ps)"
    using Cons.IH Cons.prems by simp
  have split: "coprime_upto x (p # ps) = coprime_upto x ps - {k \<in> coprime_upto x ps. p dvd k}"
    by (auto simp: coprime_upto_def)
  have "card (coprime_upto x (p # ps)) =
      card (coprime_upto x ps) - card {k \<in> coprime_upto x ps. p dvd k}"
    unfolding split by (intro card_Diff_subset) (auto simp: finite_coprime_upto)
  also have "card {k \<in> coprime_upto x ps. p dvd k} = card (coprime_upto (x div p) ps)"
    unfolding coprime_upto_multiples [OF p ps]
    by (intro card_image inj_onI) (use p in \<open>auto simp: is_prime_def\<close>)
  finally have c: "card (coprime_upto x (p # ps)) = phi x ps - phi (x div p) ps"
    by (simp add: ih)
  show ?case
  proof (cases "x < p")
    case True
    then show ?thesis by (simp add: c phi_0)
  next
    case False
    then show ?thesis by (simp add: c)
  qed
qed

lemma prime_count:
  assumes ps: "set ps = {p. is_prime p \<and> p \<le> r}" and d: "distinct ps"
    and n: "n < (r + 1) * (r + 1)" and r: "r \<le> n" and n1: "1 \<le> n"
  shows "length [k \<leftarrow> [2..<n + 1]. is_prime k] = length ps + phi n ps - 1"
proof -
  let ?P = "{k. 2 \<le> k \<and> k \<le> n \<and> is_prime k}"
  let ?B = "{k. 2 \<le> k \<and> k \<le> n \<and> (\<forall>p \<in> set ps. \<not> p dvd k)}"
  have primes: "\<forall>p \<in> set ps. is_prime p" using ps by simp
  have one: "1 \<in> coprime_upto n ps"
    using primes n1 by (auto simp: coprime_upto_def is_prime_def)
  have "length [k \<leftarrow> [2..<n + 1]. is_prime k] = card (set [k \<leftarrow> [2..<n + 1]. is_prime k])"
    by (rule distinct_card [symmetric]) (simp del: upt_Suc)
  also have "set [k \<leftarrow> [2..<n + 1]. is_prime k] = ?P" by auto
  also have "?P = set ps \<union> ?B"
  proof (intro set_eqI iffI)
    fix k assume "k \<in> ?P"
    then have k: "2 \<le> k" "k \<le> n" "is_prime k" by auto
    from is_prime_by_small_primes [OF ps _ k(1)] k(2) k(3) n
    have "k \<in> set ps \<or> no_divisor ps k" by simp
    with k show "k \<in> set ps \<union> ?B" by (auto simp: no_divisor_iff)
  next
    fix k assume a: "k \<in> set ps \<union> ?B"
    show "k \<in> ?P"
    proof (cases "k \<in> set ps")
      case True
      with ps r show ?thesis by (auto simp: is_prime_def)
    next
      case False
      with a have k: "2 \<le> k" "k \<le> n" "no_divisor ps k" by (auto simp: no_divisor_iff)
      from is_prime_by_small_primes [OF ps _ k(1)] k(2) k(3) n
      have "is_prime k" by simp
      with k show ?thesis by simp
    qed
  qed
  also have "card (set ps \<union> ?B) = card (set ps) + card ?B"
  proof (rule card_Un_disjoint)
    show "finite (set ps)" by simp
    show "finite ?B" by (rule finite_subset [of _ "{..n}"]) auto
    show "set ps \<inter> ?B = {}" by auto
  qed
  also have "card (set ps) = length ps" using d by (simp add: distinct_card)
  also have "?B = coprime_upto n ps - {1}"
    using primes by (auto simp: coprime_upto_def is_prime_def)
  also have "card (coprime_upto n ps - {1}) = card (coprime_upto n ps) - 1"
    using one by (simp add: finite_coprime_upto)
  also have "card (coprime_upto n ps) = phi n ps"
    using phi_card [OF primes d] by simp
  finally have "length [k \<leftarrow> [2..<n + 1]. is_prime k] = length ps + (phi n ps - 1)" .
  moreover have "0 < phi n ps"
    using one by (auto simp: phi_card [OF primes d] card_gt_0_iff finite_coprime_upto)
  ultimately show ?thesis by simp
qed

subsection \<open>The primes up to 316, and the count up to 100000\<close>

lemma primes_level:
  assumes "set ps = {p. is_prime p \<and> p \<le> r}" and "n < (r + 1) * (r + 1)"
    and "sifted ps n = qs"
  shows "[k \<leftarrow> [2..<n + 1]. is_prime k] = qs" and "set qs = {p. is_prime p \<and> p \<le> n}"
proof -
  from sifted_primes [OF assms(1) assms(2)] assms(3)
  show a: "[k \<leftarrow> [2..<n + 1]. is_prime k] = qs" by simp
  from primes_upto_set [of n] show "set qs = {p. is_prime p \<and> p \<le> n}"
    unfolding a .
qed

lemma primes_upto_3: "set [2, 3] = {p. is_prime p \<and> p \<le> 3}"
proof (rule primes_level(2) [where ps = "[]" and r = 1])
  show "set [] = {p. is_prime p \<and> p \<le> 1}" by (auto simp: is_prime_def)
  show "(3::nat) < (1 + 1) * (1 + 1)" by simp
  show "sifted [] 3 = [2, 3]" by (simp add: sifted_def upt_rec)
qed

lemma primes_upto_15: "set [2, 3, 5, 7, 11, 13] = {p. is_prime p \<and> p \<le> 15}"
proof (rule primes_level(2) [OF primes_upto_3])
  show "(15::nat) < (3 + 1) * (3 + 1)" by simp
  show "sifted [2, 3] 15 = [2, 3, 5, 7, 11, 13]" by (simp add: sifted_def upt_rec)
qed

lemma primes_upto_17: "set [2, 3, 5, 7, 11, 13, 17] = {p. is_prime p \<and> p \<le> 17}"
proof (rule primes_level(2) [OF primes_upto_15])
  show "(17::nat) < (15 + 1) * (15 + 1)" by simp
  show "sifted [2, 3, 5, 7, 11, 13] 17 = [2, 3, 5, 7, 11, 13, 17]"
    by (simp add: sifted_def upt_rec)
qed

lemma sifted_316: "sifted [2, 3, 5, 7, 11, 13, 17] 316 = rev small_primes"
  by (simp add: sifted_def upt_rec small_primes_def)

lemma small_primes_set: "set small_primes = {p. is_prime p \<and> p \<le> 316}"
proof -
  have "set (rev small_primes) = {p. is_prime p \<and> p \<le> 316}"
    by (rule primes_level(2) [OF primes_upto_17 _ sifted_316]) simp
  then show ?thesis by simp
qed

lemma small_primes_distinct: "distinct small_primes"
proof -
  have "[k \<leftarrow> [2..<316 + 1]. is_prime k] = rev small_primes"
    by (rule primes_level(1) [OF primes_upto_17 _ sifted_316]) simp
  then have "distinct (rev small_primes)"
    by (metis distinct_filter distinct_upt)
  then show ?thesis by simp
qed

lemma is_prime_upto_100000:
  assumes "2 \<le> k" and "k \<le> 100000"
  shows "is_prime k \<longleftrightarrow> k \<in> set small_primes \<or> no_divisor small_primes k"
  by (rule is_prime_by_small_primes [OF small_primes_set _ assms(1)]) (use assms(2) in simp)

lemma primes_from_99991: "[k \<leftarrow> [99991..<100001]. is_prime k] = [99991]"
proof -
  have "[k \<leftarrow> [99991..<100001]. is_prime k] =
      [k \<leftarrow> [99991..<100001]. k \<in> set small_primes \<or> no_divisor small_primes k]"
  proof (rule filter_cong [OF refl])
    fix k :: nat
    assume "k \<in> set [99991..<100001]"
    then have "99991 \<le> k \<and> k < 100001" by (simp only: set_upt atLeastLessThan_iff)
    then have "2 \<le> k" "k \<le> 100000" by simp_all
    then show "is_prime k \<longleftrightarrow> k \<in> set small_primes \<or> no_divisor small_primes k"
      by (rule is_prime_upto_100000)
  qed
  also have "\<dots> = [99991]"
    by (simp add: upt_rec small_primes_def)
  finally show ?thesis .
qed

lemma is_prime_2: "is_prime 2"
  by (auto simp: is_prime_def)

lemma phi_100000: "phi 100000 small_primes = 9528"
  by (simp add: small_primes_def)

lemma prime_count_100000: "length [k \<leftarrow> [2..<100001]. is_prime k] = 9592"
proof -
  have "length [k \<leftarrow> [2..<100000 + 1]. is_prime k] =
      length small_primes + phi 100000 small_primes - 1"
    by (rule prime_count [OF small_primes_set small_primes_distinct]) simp_all
  also have "\<dots> = 9592" unfolding phi_100000 by (simp add: small_primes_def)
  finally have "length [k \<leftarrow> [2..<100000 + 1]. is_prime k] = 9592" .
  moreover have "(100000::nat) + 1 = 100001" by simp
  ultimately show ?thesis by (simp only:)
qed

lemma primes_first: "hd [p \<leftarrow> [2..<100001]. is_prime p] = 2"
proof -
  have "[2..<100001] = 2 # [Suc 2..<100001]" by (rule upt_conv_Cons) simp
  then have "[p \<leftarrow> [2..<100001]. is_prime p] = 2 # [p \<leftarrow> [Suc 2..<100001]. is_prime p]"
    using is_prime_2 by (simp only: filter.simps if_True)
  then show ?thesis by (simp only: list.sel)
qed

lemma primes_last: "last [p \<leftarrow> [2..<100001]. is_prime p] = 99991"
proof -
  have "[2..<99991 + 10] = [2..<99991] @ [99991..<99991 + 10]"
    by (rule upt_add_eq_append) simp
  moreover have "(99991::nat) + 10 = 100001" by simp
  ultimately have "[2..<100001] = [2..<99991] @ [99991..<100001]" by (simp only:)
  then have "[p \<leftarrow> [2..<100001]. is_prime p] = [p \<leftarrow> [2..<99991]. is_prime p] @ [99991]"
    by (simp only: filter_append primes_from_99991)
  then show ?thesis by (simp only: last_snoc)
qed

lemma RunPrimeSieve_eq: "RunPrimeSieve = [p \<leftarrow> [2..<100001]. is_prime p]"
proof -
  have "RunPrimeSieve = [p \<leftarrow> [2..<100000 + 1]. is_prime p]"
    unfolding RunPrimeSieve_def kPrimeCount_def by (rule prime_sieve_correct)
  moreover have "(100000::nat) + 1 = 100001" by simp
  ultimately show ?thesis by (simp only:)
qed

text \<open>
  C9. \<^verbatim>\<open>RunPrimeSieve\<close> emits exactly the primes up to 100000, in increasing order: the
  list has 9592 elements, the first is 2 and the last is 99991.
\<close>

theorem RunPrimeSieve_primes_upto_100000:
  "RunPrimeSieve = [p \<leftarrow> [2..<100001]. is_prime p] \<and>
   set RunPrimeSieve = {p. is_prime p \<and> p \<le> 100000} \<and>
   sorted_wrt (<) RunPrimeSieve \<and>
   length RunPrimeSieve = 9592 \<and> hd RunPrimeSieve = 2 \<and> last RunPrimeSieve = 99991"
proof (intro conjI)
  show "RunPrimeSieve = [p \<leftarrow> [2..<100001]. is_prime p]" by (rule RunPrimeSieve_eq)
  show "set RunPrimeSieve = {p. is_prime p \<and> p \<le> 100000}"
  proof -
    have "set RunPrimeSieve = {p. is_prime p \<and> 2 \<le> p \<and> p < 100001}"
      unfolding RunPrimeSieve_eq by (simp only: set_filter set_upt atLeastLessThan_iff) blast
    also have "\<dots> = {p. is_prime p \<and> p \<le> 100000}"
      by (auto simp: is_prime_def)
    finally show ?thesis .
  qed
  show "sorted_wrt (<) RunPrimeSieve"
    unfolding RunPrimeSieve_eq by (rule sorted_wrt_filter) (rule sorted_wrt_upt)
  show "length RunPrimeSieve = 9592" unfolding RunPrimeSieve_eq by (rule prime_count_100000)
  show "hd RunPrimeSieve = 2" unfolding RunPrimeSieve_eq by (rule primes_first)
  show "last RunPrimeSieve = 99991" unfolding RunPrimeSieve_eq by (rule primes_last)
qed

end
